theory Spec2Isabelle
  imports Main "HOL-Library.Word" "HOL-Library.Monad_Syntax"
begin

section \<open>Bytes of a block\<close>

text \<open>
  A block (\<open>bh->b_data\<close>) is a list of bytes. The C code reaches into it through
  casts of \<open>void *\<close> plus an offset; here every access names its offset and its
  length, and an access that leaves the block is \<open>None\<close> (in C it is undefined
  behaviour). Offsets computed in C \<open>int\<close> are HOL integers.
\<close>

type_synonym u8 = "8 word"
type_synonym u16 = "16 word"
type_synonym u32 = "32 word"
type_synonym u64 = "64 word"

definition get_bytes :: "int \<Rightarrow> int \<Rightarrow> u8 list \<Rightarrow> u8 list" where
  "get_bytes off n blk = take (nat n) (drop (nat off) blk)"

text \<open>
  A store of \<open>bs\<close> at \<open>off\<close>. A store that would leave the block is not carried out:
  the operations below test \<open>in_block\<close> first and are \<open>None\<close> in that case.
\<close>

definition put_bytes :: "int \<Rightarrow> u8 list \<Rightarrow> u8 list \<Rightarrow> u8 list" where
  "put_bytes off bs blk =
     (if 0 \<le> off \<and> off + int (length bs) \<le> int (length blk)
      then take (nat off) blk @ bs @ drop (nat off + length bs) blk else blk)"

definition in_block :: "int \<Rightarrow> int \<Rightarrow> u8 list \<Rightarrow> bool" where
  "in_block off n blk \<longleftrightarrow> 0 \<le> off \<and> 0 \<le> n \<and> off + n \<le> int (length blk)"

text \<open>\<open>memcpy(raw + dst, src, n)\<close> from a buffer outside the block.\<close>

definition memcpy_in :: "int \<Rightarrow> u8 list \<Rightarrow> int \<Rightarrow> u8 list \<Rightarrow> u8 list option" where
  "memcpy_in dst src n blk =
     (if in_block dst n blk \<and> n \<le> int (length src)
      then Some (put_bytes dst (take (nat n) src) blk) else None)"

text \<open>\<open>memmove(raw + dst, raw + src, n)\<close> inside the block: the bytes are read first.\<close>

definition memmove_blk :: "int \<Rightarrow> int \<Rightarrow> int \<Rightarrow> u8 list \<Rightarrow> u8 list option" where
  "memmove_blk dst src n blk =
     (if in_block dst n blk \<and> in_block src n blk
      then Some (put_bytes dst (get_bytes src n blk) blk) else None)"

subsection \<open>Little-endian integers\<close>

fun enc_le :: "nat \<Rightarrow> nat \<Rightarrow> u8 list" where
  "enc_le 0 v = []"
| "enc_le (Suc n) v = of_nat (v mod 256) # enc_le n (v div 256)"

fun dec_le :: "u8 list \<Rightarrow> nat" where
  "dec_le [] = 0"
| "dec_le (b # bs) = unat b + 256 * dec_le bs"

definition cpu_to_le16 :: "u16 \<Rightarrow> u8 list" where
  "cpu_to_le16 w = enc_le 2 (unat w)"

definition cpu_to_le32 :: "u32 \<Rightarrow> u8 list" where
  "cpu_to_le32 w = enc_le 4 (unat w)"

definition cpu_to_le64 :: "u64 \<Rightarrow> u8 list" where
  "cpu_to_le64 w = enc_le 8 (unat w)"

definition rd_le16 :: "int \<Rightarrow> u8 list \<Rightarrow> u16" where
  "rd_le16 off blk = of_nat (dec_le (get_bytes off 2 blk))"

definition rd_le32 :: "int \<Rightarrow> u8 list \<Rightarrow> u32" where
  "rd_le32 off blk = of_nat (dec_le (get_bytes off 4 blk))"

definition rd_le64 :: "int \<Rightarrow> u8 list \<Rightarrow> u64" where
  "rd_le64 off blk = of_nat (dec_le (get_bytes off 8 blk))"

definition wr_le16 :: "int \<Rightarrow> u16 \<Rightarrow> u8 list \<Rightarrow> u8 list" where
  "wr_le16 off w blk = put_bytes off (cpu_to_le16 w) blk"

definition wr_le32 :: "int \<Rightarrow> u32 \<Rightarrow> u8 list \<Rightarrow> u8 list" where
  "wr_le32 off w blk = put_bytes off (cpu_to_le32 w) blk"

definition wr_le64 :: "int \<Rightarrow> u64 \<Rightarrow> u8 list \<Rightarrow> u8 list" where
  "wr_le64 off w blk = put_bytes off (cpu_to_le64 w) blk"

text \<open>\<open>le16_add_cpu(p, v)\<close> and \<open>le64_add_cpu(p, v)\<close>: the sum wraps at the field's width.\<close>

definition le16_add_cpu :: "int \<Rightarrow> int \<Rightarrow> u8 list \<Rightarrow> u8 list" where
  "le16_add_cpu off v blk = wr_le16 off (rd_le16 off blk + word_of_int v) blk"

definition le64_add_cpu :: "int \<Rightarrow> int \<Rightarrow> u8 list \<Rightarrow> u8 list" where
  "le64_add_cpu off v blk = wr_le64 off (rd_le64 off blk + word_of_int v) blk"

subsection \<open>Reading after writing\<close>

lemma length_enc_le [simp]: "length (enc_le n v) = n"
  by (induction n arbitrary: v) auto

lemma dec_enc_le: "dec_le (enc_le n v) = v mod 256 ^ n"
proof (induction n arbitrary: v)
  case 0
  then show ?case by simp
next
  case (Suc n)
  have "unat (of_nat (v mod 256) :: u8) = v mod 256"
    by (simp add: unat_of_nat)
  then show ?case
    using Suc [of "v div 256"] by (simp add: mod_mult2_eq)
qed

lemma length_cpu_to_le [simp]:
  "length (cpu_to_le16 w) = 2" "length (cpu_to_le32 v) = 4" "length (cpu_to_le64 u) = 8"
  by (simp_all add: cpu_to_le16_def cpu_to_le32_def cpu_to_le64_def)

lemma length_put_bytes [simp]: "length (put_bytes off bs blk) = length blk"
  by (auto simp: put_bytes_def)

lemma length_get_bytes:
  "0 \<le> off \<Longrightarrow> 0 \<le> n \<Longrightarrow> off + n \<le> int (length blk) \<Longrightarrow>
   int (length (get_bytes off n blk)) = n"
  by (simp add: get_bytes_def)

lemma nth_put_bytes:
  "i < length blk \<Longrightarrow>
   put_bytes off bs blk ! i =
     (if 0 \<le> off \<and> off + int (length bs) \<le> int (length blk) \<and>
         nat off \<le> i \<and> i < nat off + length bs
      then bs ! (i - nat off) else blk ! i)"
  by (auto simp: put_bytes_def nth_append min_def)

lemma get_put_same:
  "0 \<le> off \<Longrightarrow> off + int (length bs) \<le> int (length blk) \<Longrightarrow>
   get_bytes off (int (length bs)) (put_bytes off bs blk) = bs"
  by (simp add: get_bytes_def put_bytes_def min_def)

lemma get_put_disjoint:
  assumes "0 \<le> a" and "a + n \<le> b \<or> b + int (length bs) \<le> a"
  shows "get_bytes a n (put_bytes b bs blk) = get_bytes a n blk"
proof (rule nth_equalityI)
  show "length (get_bytes a n (put_bytes b bs blk)) = length (get_bytes a n blk)"
    by (simp add: get_bytes_def)
next
  fix i assume "i < length (get_bytes a n (put_bytes b bs blk))"
  then have i: "i < nat n" "nat a + i < length blk"
    by (auto simp: get_bytes_def)
  then have "put_bytes b bs blk ! (nat a + i) = blk ! (nat a + i)"
    using assms by (subst nth_put_bytes) auto
  then show "get_bytes a n (put_bytes b bs blk) ! i = get_bytes a n blk ! i"
    using i by (simp add: get_bytes_def)
qed

lemma word_of_dec_enc:
  "(of_nat (dec_le (enc_le 2 (unat (w :: u16)))) :: u16) = w"
  "(of_nat (dec_le (enc_le 4 (unat (v :: u32)))) :: u32) = v"
  "(of_nat (dec_le (enc_le 8 (unat (u :: u64)))) :: u64) = u"
proof -
  have "unat w < 2 ^ 16" "unat v < 2 ^ 32" "unat u < 2 ^ 64"
    using unsigned_less [of w] unsigned_less [of v] unsigned_less [of u] by simp_all
  then show "(of_nat (dec_le (enc_le 2 (unat w))) :: u16) = w"
    "(of_nat (dec_le (enc_le 4 (unat v))) :: u32) = v"
    "(of_nat (dec_le (enc_le 8 (unat u))) :: u64) = u"
    by (simp_all add: dec_enc_le)
qed

lemma rd_le16_put_same:
  "0 \<le> off \<Longrightarrow> off + 2 \<le> int (length blk) \<Longrightarrow>
   rd_le16 off (put_bytes off (cpu_to_le16 w) blk) = w"
  using get_put_same [of off "cpu_to_le16 w" blk]
  by (simp add: rd_le16_def) (simp add: cpu_to_le16_def word_of_dec_enc)

lemma rd_le32_put_same:
  "0 \<le> off \<Longrightarrow> off + 4 \<le> int (length blk) \<Longrightarrow>
   rd_le32 off (put_bytes off (cpu_to_le32 w) blk) = w"
  using get_put_same [of off "cpu_to_le32 w" blk]
  by (simp add: rd_le32_def) (simp add: cpu_to_le32_def word_of_dec_enc)

lemma rd_le64_put_same:
  "0 \<le> off \<Longrightarrow> off + 8 \<le> int (length blk) \<Longrightarrow>
   rd_le64 off (put_bytes off (cpu_to_le64 w) blk) = w"
  using get_put_same [of off "cpu_to_le64 w" blk]
  by (simp add: rd_le64_def) (simp add: cpu_to_le64_def word_of_dec_enc)

lemma rd_le16_put_disjoint:
  "0 \<le> a \<Longrightarrow> a + 2 \<le> b \<or> b + int (length bs) \<le> a \<Longrightarrow>
   rd_le16 a (put_bytes b bs blk) = rd_le16 a blk"
  by (simp add: rd_le16_def get_put_disjoint)

lemma rd_le32_put_disjoint:
  "0 \<le> a \<Longrightarrow> a + 4 \<le> b \<or> b + int (length bs) \<le> a \<Longrightarrow>
   rd_le32 a (put_bytes b bs blk) = rd_le32 a blk"
  by (simp add: rd_le32_def get_put_disjoint)

lemma rd_le64_put_disjoint:
  "0 \<le> a \<Longrightarrow> a + 8 \<le> b \<or> b + int (length bs) \<le> a \<Longrightarrow>
   rd_le64 a (put_bytes b bs blk) = rd_le64 a blk"
  by (simp add: rd_le64_def get_put_disjoint)

lemmas wr_defs = wr_le16_def wr_le32_def wr_le64_def le16_add_cpu_def le64_add_cpu_def

lemmas rd_put = rd_le16_put_same rd_le32_put_same rd_le64_put_same
  rd_le16_put_disjoint rd_le32_put_disjoint rd_le64_put_disjoint get_put_disjoint

subsection \<open>Frames\<close>

text \<open>
  \<open>untouched ws blk blk'\<close>: the block \<open>blk'\<close> has the bytes of \<open>blk\<close> everywhere
  outside the ranges \<open>ws\<close>, each given by its first offset and the offset after its last.
\<close>

definition untouched :: "(int \<times> int) list \<Rightarrow> u8 list \<Rightarrow> u8 list \<Rightarrow> bool" where
  "untouched ws blk blk' \<longleftrightarrow>
     length blk' = length blk \<and>
     (\<forall>a n. 0 \<le> a \<longrightarrow> (\<forall>w \<in> set ws. a + n \<le> fst w \<or> snd w \<le> a) \<longrightarrow>
        get_bytes a n blk' = get_bytes a n blk)"

lemma untouched_refl: "untouched ws blk blk"
  by (simp add: untouched_def)

lemma untouched_put: "untouched [(b, b + int (length bs))] blk (put_bytes b bs blk)"
  by (simp add: untouched_def get_put_disjoint)

lemma untouched_trans:
  "untouched ws1 b0 b1 \<Longrightarrow> untouched ws2 b1 b2 \<Longrightarrow> untouched (ws1 @ ws2) b0 b2"
  by (simp add: untouched_def ball_Un)

lemma untouched_mono:
  "untouched ws blk blk' \<Longrightarrow> set ws \<subseteq> set ws' \<Longrightarrow> untouched ws' blk blk'"
  unfolding untouched_def by blast

lemma untouched_length: "untouched ws blk blk' \<Longrightarrow> length blk' = length blk"
  by (simp add: untouched_def)

lemma untouched_get:
  "untouched ws blk blk' \<Longrightarrow> 0 \<le> a \<Longrightarrow> list_all (\<lambda>w. a + n \<le> fst w \<or> snd w \<le> a) ws \<Longrightarrow>
   get_bytes a n blk' = get_bytes a n blk"
  by (simp add: untouched_def list_all_iff)

lemma untouched_rd:
  assumes "untouched ws blk blk'" "0 \<le> a"
  shows "list_all (\<lambda>w. a + 2 \<le> fst w \<or> snd w \<le> a) ws \<Longrightarrow> rd_le16 a blk' = rd_le16 a blk"
    and "list_all (\<lambda>w. a + 4 \<le> fst w \<or> snd w \<le> a) ws \<Longrightarrow> rd_le32 a blk' = rd_le32 a blk"
    and "list_all (\<lambda>w. a + 8 \<le> fst w \<or> snd w \<le> a) ws \<Longrightarrow> rd_le64 a blk' = rd_le64 a blk"
  using assms by (simp_all add: rd_le16_def rd_le32_def rd_le64_def untouched_get)

lemma untouched_wr:
  "untouched [(off, off + 2)] blk (wr_le16 off w blk)"
  "untouched [(off, off + 4)] blk (wr_le32 off v blk)"
  "untouched [(off, off + 8)] blk (wr_le64 off u blk)"
  "untouched [(off, off + 2)] blk (le16_add_cpu off i blk)"
  "untouched [(off, off + 8)] blk (le64_add_cpu off i blk)"
  using untouched_put [of off "cpu_to_le16 w" blk] untouched_put [of off "cpu_to_le32 v" blk]
    untouched_put [of off "cpu_to_le64 u" blk]
    untouched_put [of off "cpu_to_le16 (rd_le16 off blk + word_of_int i)" blk]
    untouched_put [of off "cpu_to_le64 (rd_le64 off blk + word_of_int i)" blk]
  by (simp_all add: wr_defs)

lemma length_wr [simp]:
  "length (wr_le16 off w blk) = length blk"
  "length (wr_le32 off v blk) = length blk"
  "length (wr_le64 off u blk) = length blk"
  "length (le16_add_cpu off i blk) = length blk"
  "length (le64_add_cpu off i blk) = length blk"
  by (simp_all add: wr_defs)

lemma rd_add_same:
  "0 \<le> off \<Longrightarrow> off + 2 \<le> int (length blk) \<Longrightarrow>
   rd_le16 off (le16_add_cpu off i blk) = rd_le16 off blk + word_of_int i"
  "0 \<le> off \<Longrightarrow> off + 8 \<le> int (length blk) \<Longrightarrow>
   rd_le64 off (le64_add_cpu off i blk) = rd_le64 off blk + word_of_int i"
  by (simp_all add: wr_defs rd_put)

lemma rd_wr_same:
  "0 \<le> off \<Longrightarrow> off + 2 \<le> int (length blk) \<Longrightarrow> rd_le16 off (wr_le16 off w blk) = w"
  "0 \<le> off \<Longrightarrow> off + 4 \<le> int (length blk) \<Longrightarrow> rd_le32 off (wr_le32 off v blk) = v"
  "0 \<le> off \<Longrightarrow> off + 8 \<le> int (length blk) \<Longrightarrow> rd_le64 off (wr_le64 off u blk) = u"
  by (simp_all add: wr_defs rd_put)


lemma untouched_cover:
  assumes "untouched ws blk blk'"
    and "\<forall>w \<in> set ws. \<exists>w' \<in> set ws'. fst w' \<le> fst w \<and> snd w \<le> snd w'"
  shows "untouched ws' blk blk'"
  unfolding untouched_def
proof (intro conjI allI impI)
  show "length blk' = length blk" using assms(1) by (rule untouched_length)
next
  fix a n :: int
  assume a: "0 \<le> a" and d: "\<forall>w \<in> set ws'. a + n \<le> fst w \<or> snd w \<le> a"
  have "\<forall>w \<in> set ws. a + n \<le> fst w \<or> snd w \<le> a"
  proof
    fix w assume w: "w \<in> set ws"
    with assms(2) obtain w' where "w' \<in> set ws'" "fst w' \<le> fst w" "snd w \<le> snd w'"
      by blast
    with d show "a + n \<le> fst w \<or> snd w \<le> a" by force
  qed
  with assms(1) a show "get_bytes a n blk' = get_bytes a n blk" by (simp add: untouched_def)
qed

lemma untouched_snoc:
  "untouched ws b0 b1 \<Longrightarrow> untouched [w] b1 b2 \<Longrightarrow> untouched (w # ws) b0 b2"
  using untouched_trans [of ws b0 b1 "[w]" b2] by (auto elim: untouched_mono)

lemma untouched_steps:
  "untouched ws b0 blk \<Longrightarrow> untouched ((off, off + 2) # ws) b0 (wr_le16 off w blk)"
  "untouched ws b0 blk \<Longrightarrow> untouched ((off, off + 4) # ws) b0 (wr_le32 off v blk)"
  "untouched ws b0 blk \<Longrightarrow> untouched ((off, off + 8) # ws) b0 (wr_le64 off u blk)"
  "untouched ws b0 blk \<Longrightarrow> untouched ((off, off + 2) # ws) b0 (le16_add_cpu off i blk)"
  "untouched ws b0 blk \<Longrightarrow> untouched ((off, off + 8) # ws) b0 (le64_add_cpu off i blk)"
  by (erule untouched_snoc, rule untouched_wr)+

lemma get_bytes_append:
  "0 \<le> a \<Longrightarrow> 0 \<le> n1 \<Longrightarrow> 0 \<le> n2 \<Longrightarrow>
   get_bytes a (n1 + n2) blk = get_bytes a n1 blk @ get_bytes (a + n1) n2 blk"
  by (simp add: get_bytes_def nat_add_distrib take_add add.commute)

lemma get_get:
  "0 \<le> a \<Longrightarrow> 0 \<le> b \<Longrightarrow> 0 \<le> n \<Longrightarrow> b + n \<le> m \<Longrightarrow>
   get_bytes b n (get_bytes a m blk) = get_bytes (a + b) n blk"
  by (simp add: get_bytes_def take_drop nat_add_distrib min_def add.commute)

lemma get_put_inside:
  assumes "0 \<le> b" "b + int (length bs) \<le> int (length blk)" "0 \<le> c" "0 \<le> n"
    "c + n \<le> int (length bs)"
  shows "get_bytes (b + c) n (put_bytes b bs blk) = get_bytes c n bs"
proof (rule nth_equalityI)
  show "length (get_bytes (b + c) n (put_bytes b bs blk)) = length (get_bytes c n bs)"
    using assms by (simp add: get_bytes_def)
next
  fix i assume "i < length (get_bytes (b + c) n (put_bytes b bs blk))"
  then have i: "i < nat n" "nat (b + c) + i < length blk"
    by (auto simp: get_bytes_def)
  have "put_bytes b bs blk ! (nat (b + c) + i) = bs ! (nat c + i)"
    using assms i by (subst nth_put_bytes) (auto simp: nat_add_distrib)
  then show "get_bytes (b + c) n (put_bytes b bs blk) ! i = get_bytes c n bs ! i"
    using i assms by (simp add: get_bytes_def)
qed

lemma memmove_content:
  assumes "memmove_blk dst src m blk = Some blk'" "0 \<le> c" "0 \<le> n" "c + n \<le> m"
  shows "get_bytes (dst + c) n blk' = get_bytes (src + c) n blk"
proof -
  from assms(1) have ib: "in_block dst m blk" "in_block src m blk"
    and eq: "blk' = put_bytes dst (get_bytes src m blk) blk"
    by (auto simp: memmove_blk_def split: if_splits)
  have len: "int (length (get_bytes src m blk)) = m"
    using ib by (simp add: length_get_bytes in_block_def)
  have "get_bytes (dst + c) n blk' = get_bytes c n (get_bytes src m blk)"
    unfolding eq using ib assms(2-4) len by (intro get_put_inside) (simp_all add: in_block_def)
  also have "\<dots> = get_bytes (src + c) n blk"
    using ib assms(2-4) by (simp add: get_get in_block_def)
  finally show ?thesis .
qed

lemma memmove_untouched:
  assumes "memmove_blk dst src m blk = Some blk'"
  shows "untouched [(dst, dst + m)] blk blk'"
proof -
  from assms have ib: "in_block dst m blk" "in_block src m blk"
    and eq: "blk' = put_bytes dst (get_bytes src m blk) blk"
    by (auto simp: memmove_blk_def split: if_splits)
  have len: "int (length (get_bytes src m blk)) = m"
    using ib by (simp add: length_get_bytes in_block_def)
  show ?thesis
    unfolding eq using untouched_put [of dst "get_bytes src m blk" blk] len by simp
qed

lemma memcpy_content:
  assumes "memcpy_in dst src n blk = Some blk'"
  shows "get_bytes dst n blk' = take (nat n) src"
proof -
  from assms have ib: "in_block dst n blk" "n \<le> int (length src)"
    and eq: "blk' = put_bytes dst (take (nat n) src) blk"
    by (auto simp: memcpy_in_def split: if_splits)
  have len: "int (length (take (nat n) src)) = n"
    using ib by (simp add: in_block_def)
  show ?thesis
    unfolding eq using get_put_same [of dst "take (nat n) src" blk] ib len
    by (simp add: in_block_def)
qed

lemma memcpy_untouched:
  assumes "memcpy_in dst src n blk = Some blk'"
  shows "untouched [(dst, dst + n)] blk blk'"
proof -
  from assms have ib: "in_block dst n blk" "n \<le> int (length src)"
    and eq: "blk' = put_bytes dst (take (nat n) src) blk"
    by (auto simp: memcpy_in_def split: if_splits)
  have len: "int (length (take (nat n) src)) = n"
    using ib by (simp add: in_block_def)
  show ?thesis
    unfolding eq using untouched_put [of dst "take (nat n) src" blk] len by simp
qed


section \<open>Nodes, queries and results\<close>

text \<open>
  Modelled from the spec: the on-disk layout of a node (section 6 of the specification);
  the declarations of \<open>struct apfs_btree_node_phys\<close>, \<open>struct apfs_btree_info\<close>,
  \<open>struct apfs_kvoff\<close>, \<open>struct apfs_kvloc\<close> and \<open>APFS_BTOFF_INVALID\<close> are not
  among the sources. The object header is 32 bytes (checksum, oid, xid, type, subtype);
  then \<open>btn_flags\<close> (u16), \<open>btn_level\<close> (u16), \<open>btn_nkeys\<close> (u32) and the four
  offset/length pairs \<open>btn_table_space\<close>, \<open>btn_free_space\<close>, \<open>btn_key_free_list\<close>,
  \<open>btn_val_free_list\<close>; \<open>btn_data\<close> starts at byte 56. The tree info at the end of
  a root block is 40 bytes: four u32 of fixed data, \<open>bt_longest_key\<close> (u32),
  \<open>bt_longest_val\<close> (u32), \<open>bt_key_count\<close> (u64), \<open>bt_node_count\<close> (u64).
\<close>

definition node_phys_size :: int where "node_phys_size = 56"
definition btree_info_size :: int where "btree_info_size = 40"
definition kvoff_size :: int where "kvoff_size = 4"
definition kvloc_size :: int where "kvloc_size = 8"
definition APFS_BTOFF_INVALID :: u16 where "APFS_BTOFF_INVALID = 0xFFFF"

definition o_cksum_at :: int where "o_cksum_at = 0"
definition o_xid_at :: int where "o_xid_at = 16"
definition btn_nkeys_at :: int where "btn_nkeys_at = 36"
definition table_space_len_at :: int where "table_space_len_at = 42"
definition free_space_off_at :: int where "free_space_off_at = 44"
definition free_space_len_at :: int where "free_space_len_at = 46"
definition key_free_list_off_at :: int where "key_free_list_off_at = 48"
definition key_free_list_len_at :: int where "key_free_list_len_at = 50"
definition val_free_list_off_at :: int where "val_free_list_off_at = 52"
definition val_free_list_len_at :: int where "val_free_list_len_at = 54"

text \<open>Offsets of the fields of \<open>struct apfs_btree_info\<close> from its start.\<close>

definition bt_longest_key_in :: int where "bt_longest_key_in = 16"
definition bt_longest_val_in :: int where "bt_longest_val_in = 20"
definition bt_key_count_in :: int where "bt_key_count_in = 24"

text \<open>Constants used in managing the size of a node's table of contents (btree.c).\<close>

definition BTREE_TOC_ENTRY_INCREMENT :: int where "BTREE_TOC_ENTRY_INCREMENT = 8"

lemmas layout_defs = node_phys_size_def btree_info_size_def kvoff_size_def kvloc_size_def
  o_cksum_at_def o_xid_at_def btn_nkeys_at_def table_space_len_at_def free_space_off_at_def
  free_space_len_at_def key_free_list_len_at_def val_free_list_len_at_def
  key_free_list_off_at_def val_free_list_off_at_def
  bt_longest_key_in_def bt_longest_val_in_def bt_key_count_in_def BTREE_TOC_ENTRY_INCREMENT_def

datatype error = EAGAIN | ENODATA | EFSCORRUPTED | ENOMEM | ENOSPC | EIO

text \<open>
  What a call leaves behind: \<open>Success\<close> is the return value 0, \<open>Failure e\<close> the return
  value \<open>-e\<close>, both with the state as the call left it. \<open>Undefined\<close> stands for what C
  leaves undefined: a failed \<open>ASSERT\<close>, an access outside the block.
\<close>

datatype 's outcome = Success 's | Failure error 's | Undefined

text \<open>
  The superblock: the block size, the current transaction id, and the checksum of a
  block (\<open>apfs_obj_set_csum\<close> stores it in the first 8 bytes; the routine that computes
  it is not among the sources and is a parameter).
\<close>

record super_block =
  s_blocksize :: int
  s_xid :: u64
  s_fletcher :: "u8 list \<Rightarrow> u64"

text \<open>
  \<open>struct apfs_node\<close> with the buffer of its block. The node flags are read through
  \<open>apfs_node_is_root\<close>, \<open>apfs_node_is_leaf\<close> and \<open>apfs_node_has_fixed_kv_size\<close>
  only, so each is a field. The fields \<open>key\<close>, \<open>free\<close> and \<open>data\<close> carry the
  prefix \<open>n_\<close>: the insert has a parameter called \<open>key\<close> too.
\<close>

record apfs_node =
  n_is_root :: bool
  n_is_leaf :: bool
  n_has_fixed_kv_size :: bool
  n_records :: int
  n_key :: int
  n_free :: int
  n_data :: int
  n_block_nr :: u64
  n_oid :: u64
  b_data :: "u8 list"
  b_dirty :: bool
  b_csum :: bool

record apfs_key =
  k_id :: u64
  k_number :: u64
  k_name :: "string option"
  k_type :: u8

datatype qflag = APFS_QUERY_OMAP | APFS_QUERY_MULTIPLE | APFS_QUERY_DONE | APFS_QUERY_NEXT

text \<open>
  \<open>struct apfs_query\<close> without its \<open>parent\<close> pointer: a chain of queries is the list
  of the query and its ancestors, the query first.
\<close>

record apfs_query =
  q_node :: apfs_node
  q_key :: "apfs_key option"
  q_flags :: "qflag set"
  q_index :: int
  q_key_off :: int
  q_key_len :: int
  q_off :: int
  q_len :: int
  q_depth :: int

section \<open>Leaf mutation\<close>

text \<open>
  The buffer of a node holds one block of the filesystem, and the block has room for the
  node header and the tree info. The fields at fixed offsets are inside such a buffer.
\<close>

definition buffer_ok :: "super_block \<Rightarrow> apfs_node \<Rightarrow> bool" where
  "buffer_ok sb node \<longleftrightarrow>
     int (length (b_data node)) = s_blocksize sb \<and>
     node_phys_size + btree_info_size \<le> s_blocksize sb"

definition toc_entry_size :: "apfs_node \<Rightarrow> int" where
  "toc_entry_size node = (if n_has_fixed_kv_size node then kvoff_size else kvloc_size)"

definition apfs_obj_set_csum :: "super_block \<Rightarrow> u8 list \<Rightarrow> u8 list" where
  "apfs_obj_set_csum sb blk = wr_le64 o_cksum_at (s_fletcher sb blk) blk"

text \<open>
  The entry \<open>i\<close> of the table of contents, \<open>(struct apfs_kvoff *)node_raw->btn_data + i\<close>
  or the same with \<open>struct apfs_kvloc\<close>, and the tree info,
  \<open>(void *)node_raw + sb->s_blocksize - sizeof(*info)\<close>, as offsets in the block.
\<close>

definition toc_entry_at :: "apfs_node \<Rightarrow> int \<Rightarrow> int" where
  "toc_entry_at node i = node_phys_size + i * toc_entry_size node"

definition info_at :: "super_block \<Rightarrow> int" where
  "info_at sb = s_blocksize sb - btree_info_size"

text \<open>
  \<open>apfs_btree_insert\<close>, lines 334-354: expand the table of contents if necessary.
  \<open>toc_full\<close> is the test of line 335, \<open>toc_inc\<close> the value of \<open>inc\<close>. The second
  \<open>-ENOSPC\<close> is returned before the key area is moved.
\<close>

definition toc_full :: "apfs_node \<Rightarrow> bool" where
  "toc_full node \<longleftrightarrow>
     node_phys_size + (n_records node + 1) * toc_entry_size node > n_key node"

definition toc_inc :: "apfs_node \<Rightarrow> int" where
  "toc_inc node = BTREE_TOC_ENTRY_INCREMENT * toc_entry_size node"

definition expand_toc :: "apfs_node \<Rightarrow> int \<Rightarrow> int \<Rightarrow> apfs_node outcome" where
  "expand_toc node key_len val_len =
     (if toc_full node then
        let inc = toc_inc node;
            new_key_base = n_key node + inc;
            new_free_base = n_free node + inc
        in if new_free_base + key_len + val_len > n_data node then Failure ENOSPC node
           else (case memmove_blk new_key_base (n_key node) (n_free node - n_key node)
                        (b_data node) of
                   None \<Rightarrow> Undefined
                 | Some raw1 \<Rightarrow>
                     Success (node\<lparr>n_key := new_key_base, n_free := new_free_base,
                       b_data := le16_add_cpu free_space_len_at (- inc)
                                   (le16_add_cpu table_space_len_at inc raw1)\<rparr>))
      else Success node)"

text \<open>
  Lines 358-385: insert the new entry in the table of contents. \<open>struct apfs_kvoff\<close> is
  \<open>k\<close>, \<open>v\<close>; \<open>struct apfs_kvloc\<close> is \<open>k.off\<close>, \<open>k.len\<close>, \<open>v.off\<close>, \<open>v.len\<close>,
  16 bits each.
\<close>

definition insert_toc_entry ::
  "super_block \<Rightarrow> apfs_node \<Rightarrow> int \<Rightarrow> int \<Rightarrow> u8 list option \<Rightarrow> int \<Rightarrow> u8 list option" where
  "insert_toc_entry sb node index key_len val val_len =
     (let tes = toc_entry_size node;
          toc_entry = toc_entry_at node index
      in do {
        raw1 \<leftarrow> memmove_blk (toc_entry + tes) toc_entry ((n_records node - index) * tes)
                  (b_data node);
        if \<not> in_block toc_entry tes raw1 then None
        else if n_has_fixed_kv_size node then
          Some (wr_le16 toc_entry (word_of_int (n_free node - n_key node))
                 (wr_le16 (toc_entry + 2)
                    (case val of None \<Rightarrow> APFS_BTOFF_INVALID | Some v \<Rightarrow> word_of_int val_len)
                    raw1))
        else
          Some (wr_le16 (toc_entry + 2) (word_of_int key_len)
                 (wr_le16 toc_entry (word_of_int (n_free node - n_key node))
                   (wr_le16 (toc_entry + 6) (word_of_int val_len)
                     (wr_le16 (toc_entry + 4)
                        (word_of_int (s_blocksize sb - n_data node - btree_info_size + val_len))
                        raw1))))
      })"

text \<open>Lines 387-391: write the record key to the end of the key area.\<close>

definition write_key :: "apfs_node \<Rightarrow> u8 list \<Rightarrow> int \<Rightarrow> apfs_node option" where
  "write_key node key key_len =
     do {
       raw1 \<leftarrow> memcpy_in (n_free node) key key_len (b_data node);
       Some (node\<lparr>n_free := n_free node + key_len,
               b_data := le16_add_cpu free_space_len_at (- key_len)
                           (le16_add_cpu free_space_off_at key_len raw1)\<rparr>)
     }"

text \<open>Lines 393-398: write the record value to the beginning of the value area.\<close>

definition write_val :: "apfs_node \<Rightarrow> u8 list option \<Rightarrow> int \<Rightarrow> apfs_node option" where
  "write_val node val val_len =
     (case val of
        None \<Rightarrow> Some node
      | Some v \<Rightarrow>
          do {
            raw1 \<leftarrow> memcpy_in (n_data node - val_len) v val_len (b_data node);
            Some (node\<lparr>n_data := n_data node - val_len,
                    b_data := le16_add_cpu free_space_len_at (- val_len) raw1\<rparr>)
          })"

text \<open>
  Lines 400-410: the counters of the tree info, the number of records, the checksum and
  the dirty flag. \<open>key_len\<close> and \<open>val_len\<close> are compared with the 32-bit fields as
  unsigned values, as C converts them.
\<close>

definition update_info :: "super_block \<Rightarrow> apfs_node \<Rightarrow> int \<Rightarrow> int \<Rightarrow> apfs_node" where
  "update_info sb node key_len val_len =
     (let info = info_at sb;
          raw1 = le64_add_cpu (info + bt_key_count_in) 1 (b_data node);
          raw2 = wr_le32 btn_nkeys_at (word_of_int (n_records node + 1)) raw1;
          raw3 = (if (word_of_int key_len :: u32) > rd_le32 (info + bt_longest_key_in) raw2
                  then wr_le32 (info + bt_longest_key_in) (word_of_int key_len) raw2
                  else raw2);
          raw4 = (if (word_of_int val_len :: u32) > rd_le32 (info + bt_longest_val_in) raw3
                  then wr_le32 (info + bt_longest_val_in) (word_of_int val_len) raw3
                  else raw3)
      in node\<lparr>n_records := n_records node + 1,
              b_data := apfs_obj_set_csum sb raw4, b_dirty := True\<rparr>)"

text \<open>
  \<open>apfs_btree_insert\<close>: \<open>key\<close> points to at least \<open>key_len\<close> bytes, \<open>val\<close> is \<open>None\<close>
  for the NULL pointer of a ghost record. The new record is placed right before the one
  found by the query.
\<close>

definition apfs_btree_insert ::
  "super_block \<Rightarrow> apfs_query \<Rightarrow> u8 list \<Rightarrow> int \<Rightarrow> u8 list option \<Rightarrow> int \<Rightarrow> apfs_query outcome" where
  "apfs_btree_insert sb query key key_len val val_len =
     (let node = q_node query in
      if \<not> buffer_ok sb node then Undefined
      else if \<not> (n_is_root node \<and> n_is_leaf node) then Undefined
      else if s_xid sb \<noteq> rd_le64 o_xid_at (b_data node) then Undefined
      else if n_free node + key_len + val_len > n_data node then Failure ENOSPC query
      else (case expand_toc node key_len val_len of
              Undefined \<Rightarrow> Undefined
            | Failure e node' \<Rightarrow> Failure e (query\<lparr>q_node := node'\<rparr>)
            | Success node1 \<Rightarrow>
                let index = q_index query + 1 in
                (case do {
                        raw2 \<leftarrow> insert_toc_entry sb node1 index key_len val val_len;
                        node3 \<leftarrow> write_key (node1\<lparr>b_data := raw2\<rparr>) key key_len;
                        node4 \<leftarrow> write_val node3 val val_len;
                        Some (update_info sb node4 key_len val_len)
                      } of
                   None \<Rightarrow> Undefined
                 | Some node5 \<Rightarrow> Success (query\<lparr>q_node := node5, q_index := index\<rparr>))))"

text \<open>
  \<open>apfs_btree_remove\<close>: the entry of the query leaves the table of contents; the key and
  value areas stay as they are, and the lengths of the two free lists grow.
\<close>

definition apfs_btree_remove :: "super_block \<Rightarrow> apfs_query \<Rightarrow> apfs_query outcome" where
  "apfs_btree_remove sb query =
     (let node = q_node query;
          later_entries = n_records node - q_index query - 1
      in
      if \<not> buffer_ok sb node then Undefined
      else if \<not> (n_is_root node \<and> n_is_leaf node) then Undefined
      else if s_xid sb \<noteq> rd_le64 o_xid_at (b_data node) then Undefined
      else
        let tes = toc_entry_size node;
            toc_entry = toc_entry_at node (q_index query)
        in (case memmove_blk toc_entry (toc_entry + tes) (later_entries * tes) (b_data node) of
              None \<Rightarrow> Undefined
            | Some raw1 \<Rightarrow>
                let info = info_at sb;
                    raw2 = le64_add_cpu (info + bt_key_count_in) (- 1) raw1;
                    raw3 = wr_le32 btn_nkeys_at (word_of_int (n_records node - 1)) raw2;
                    raw4 = le16_add_cpu key_free_list_len_at (q_key_len query) raw3;
                    raw5 = le16_add_cpu val_free_list_len_at (q_len query) raw4
                in Success (query\<lparr>q_node := node\<lparr>n_records := n_records node - 1,
                                       b_data := apfs_obj_set_csum sb raw5,
                                       b_dirty := True\<rparr>\<rparr>)))"


section \<open>Root-and-leaf nodes\<close>

text \<open>
  The layout invariant of the specification for a root node: the slots in use end at or
  before the key area, the key area ends at the free area, the free area ends at the
  value area, and the value area ends at or before the tree info. The node belongs to the
  current transaction.
\<close>

definition root_leaf_node :: "super_block \<Rightarrow> apfs_node \<Rightarrow> bool" where
  "root_leaf_node sb node \<longleftrightarrow>
     buffer_ok sb node \<and> n_is_root node \<and> n_is_leaf node \<and>
     s_xid sb = rd_le64 o_xid_at (b_data node) \<and>
     0 \<le> n_records node \<and>
     node_phys_size + n_records node * toc_entry_size node \<le> n_key node \<and>
     n_key node \<le> n_free node \<and> n_free node \<le> n_data node \<and>
     n_data node \<le> s_blocksize sb - btree_info_size"

text \<open>
  What the caller of the insert passes: a query that found the record right before the
  new key (\<open>-1\<close> when the new key comes first), \<open>key_len\<close> bytes of key, and either no
  value or \<open>val_len\<close> bytes of value.
\<close>

definition insert_args_ok ::
  "apfs_query \<Rightarrow> u8 list \<Rightarrow> int \<Rightarrow> u8 list option \<Rightarrow> int \<Rightarrow> bool" where
  "insert_args_ok query key key_len val val_len \<longleftrightarrow>
     - 1 \<le> q_index query \<and> q_index query < n_records (q_node query) \<and>
     0 \<le> key_len \<and> key_len \<le> int (length key) \<and> 0 \<le> val_len \<and>
     (case val of None \<Rightarrow> True | Some v \<Rightarrow> val_len \<le> int (length v))"

text \<open>The growth of the table of contents in an insert: \<open>toc_inc\<close> if it was full.\<close>

definition toc_growth :: "apfs_node \<Rightarrow> int" where
  "toc_growth node = (if toc_full node then toc_inc node else 0)"

text \<open>The bytes a ghost insert leaves out: the length of the value written.\<close>

definition val_written :: "u8 list option \<Rightarrow> int \<Rightarrow> int" where
  "val_written val vl = (case val of None \<Rightarrow> 0 | Some v \<Rightarrow> vl)"

subsection \<open>The steps of the insert\<close>

lemma toc_entry_size_cases: "toc_entry_size node = 4 \<or> toc_entry_size node = 8"
  by (simp add: toc_entry_size_def kvoff_size_def kvloc_size_def)

lemma toc_inc_pos: "0 < toc_inc node"
  using toc_entry_size_cases [of node] by (auto simp: toc_inc_def BTREE_TOC_ENTRY_INCREMENT_def)

lemma expand_toc_fits: "\<not> toc_full node \<Longrightarrow> expand_toc node kl vl = Success node"
  by (simp add: expand_toc_def)

lemma expand_toc_nospace:
  "toc_full node \<Longrightarrow> n_data node < n_free node + toc_inc node + kl + vl \<Longrightarrow>
   expand_toc node kl vl = Failure ENOSPC node"
  by (simp add: expand_toc_def Let_def)

lemma expand_toc_Failure:
  "expand_toc node kl vl = Failure e node' \<Longrightarrow>
   e = ENOSPC \<and> node' = node \<and> toc_full node \<and> n_data node < n_free node + toc_inc node + kl + vl"
  by (auto simp: expand_toc_def Let_def split: if_splits option.splits)

lemma expand_toc_grows:
  assumes "toc_full node" "\<not> n_data node < n_free node + toc_inc node + kl + vl"
    "0 \<le> n_key node" "n_key node \<le> n_free node" "0 \<le> kl + vl"
    "n_data node \<le> int (length (b_data node))"
  shows "\<exists>raw1. memmove_blk (n_key node + toc_inc node) (n_key node) (n_free node - n_key node)
            (b_data node) = Some raw1 \<and>
          expand_toc node kl vl =
            Success (node\<lparr>n_key := n_key node + toc_inc node, n_free := n_free node + toc_inc node,
              b_data := le16_add_cpu free_space_len_at (- toc_inc node)
                          (le16_add_cpu table_space_len_at (toc_inc node) raw1)\<rparr>)"
  using assms toc_inc_pos [of node]
  by (simp add: expand_toc_def Let_def memmove_blk_def in_block_def)

text \<open>What the expansion leaves as it was, and where the key area is afterwards.\<close>

lemma expand_toc_Success:
  assumes ok: "expand_toc node kl vl = Success node1"
    and lay: "node_phys_size \<le> n_key node" "int (length (b_data node)) \<ge> node_phys_size"
  shows "n_key node1 = n_key node + (if toc_full node then toc_inc node else 0)"
    and "n_free node1 = n_free node + (if toc_full node then toc_inc node else 0)"
    and "n_records node1 = n_records node" and "n_data node1 = n_data node"
    and "n_is_root node1 = n_is_root node" and "n_is_leaf node1 = n_is_leaf node"
    and "n_has_fixed_kv_size node1 = n_has_fixed_kv_size node"
    and "untouched [(n_key node + toc_inc node, n_free node + toc_inc node),
           (table_space_len_at, table_space_len_at + 2), (free_space_len_at, free_space_len_at + 2)]
           (b_data node) (b_data node1)"
    and "get_bytes (n_key node1) (n_free node - n_key node) (b_data node1) =
         get_bytes (n_key node) (n_free node - n_key node) (b_data node)"
    and "rd_le16 table_space_len_at (b_data node1) =
         rd_le16 table_space_len_at (b_data node) + (if toc_full node then word_of_int (toc_inc node) else 0)"
    and "rd_le16 free_space_len_at (b_data node1) =
         rd_le16 free_space_len_at (b_data node) - (if toc_full node then word_of_int (toc_inc node) else 0)"
    and "n_free node1 + kl + vl \<le> n_data node \<or> \<not> toc_full node"
proof -
  show "n_free node1 + kl + vl \<le> n_data node \<or> \<not> toc_full node"
    using ok by (auto simp: expand_toc_def Let_def split: if_splits option.splits)
  consider (same) "\<not> toc_full node" "node1 = node"
    | (grown) raw1 where "toc_full node"
        "memmove_blk (n_key node + toc_inc node) (n_key node) (n_free node - n_key node)
            (b_data node) = Some raw1"
        "node1 = node\<lparr>n_key := n_key node + toc_inc node, n_free := n_free node + toc_inc node,
              b_data := le16_add_cpu free_space_len_at (- toc_inc node)
                          (le16_add_cpu table_space_len_at (toc_inc node) raw1)\<rparr>"
    using ok by (auto simp: expand_toc_def Let_def split: if_splits option.splits)
  note cases = this
  show "n_key node1 = n_key node + (if toc_full node then toc_inc node else 0)"
    "n_free node1 = n_free node + (if toc_full node then toc_inc node else 0)"
    "n_records node1 = n_records node" "n_data node1 = n_data node"
    "n_is_root node1 = n_is_root node" "n_is_leaf node1 = n_is_leaf node"
    "n_has_fixed_kv_size node1 = n_has_fixed_kv_size node"
    by (cases rule: cases; simp)+
  show "untouched [(n_key node + toc_inc node, n_free node + toc_inc node),
           (table_space_len_at, table_space_len_at + 2), (free_space_len_at, free_space_len_at + 2)]
           (b_data node) (b_data node1)"
  proof (cases rule: cases)
    case same
    then show ?thesis by (simp add: untouched_refl)
  next
    case (grown raw1)
    have "untouched ([(n_key node + toc_inc node, n_key node + toc_inc node + (n_free node - n_key node))]
            @ [(table_space_len_at, table_space_len_at + 2)] @ [(free_space_len_at, free_space_len_at + 2)])
            (b_data node) (b_data node1)"
      unfolding grown(3)
      using untouched_trans [OF memmove_untouched [OF grown(2)]
          untouched_trans [OF untouched_wr(4) untouched_wr(4)]]
      by simp
    then show ?thesis by (simp add: add.commute)
  qed
  note unt = this
  show "get_bytes (n_key node1) (n_free node - n_key node) (b_data node1) =
         get_bytes (n_key node) (n_free node - n_key node) (b_data node)"
  proof (cases rule: cases)
    case same
    then show ?thesis by simp
  next
    case (grown raw1)
    have ib: "in_block (n_key node) (n_free node - n_key node) (b_data node)"
      using grown(2) by (auto simp: memmove_blk_def split: if_splits)
    have u: "untouched ([(table_space_len_at, table_space_len_at + 2)] @ [(free_space_len_at, free_space_len_at + 2)])
            raw1 (b_data node1)"
      unfolding grown(3) using untouched_trans [OF untouched_wr(4) untouched_wr(4)] by simp
    have "get_bytes (n_key node + toc_inc node) (n_free node - n_key node) (b_data node1) =
          get_bytes (n_key node + toc_inc node) (n_free node - n_key node) raw1"
      using lay toc_inc_pos [of node] ib
      by (intro untouched_get [OF u]) (auto simp: layout_defs in_block_def)
    also have "\<dots> = get_bytes (n_key node) (n_free node - n_key node) (b_data node)"
      using memmove_content [OF grown(2), of 0 "n_free node - n_key node"] ib
      by (simp add: in_block_def)
    finally show ?thesis using grown by simp
  qed
  show "rd_le16 table_space_len_at (b_data node1) =
         rd_le16 table_space_len_at (b_data node) + (if toc_full node then word_of_int (toc_inc node) else 0)"
  proof (cases rule: cases)
    case same
    then show ?thesis by simp
  next
    case (grown raw1)
    have l: "length raw1 = length (b_data node)"
      using memmove_untouched [OF grown(2)] by (rule untouched_length)
    have "rd_le16 table_space_len_at raw1 = rd_le16 table_space_len_at (b_data node)"
      using lay toc_inc_pos [of node]
      by (intro untouched_rd(1) [OF memmove_untouched [OF grown(2)]]) (auto simp: layout_defs)
    moreover have "rd_le16 table_space_len_at (b_data node1) =
        rd_le16 table_space_len_at (le16_add_cpu table_space_len_at (toc_inc node) raw1)"
      unfolding grown(3)
      by (simp, intro untouched_rd(1) [OF untouched_wr(4)]) (auto simp: layout_defs)
    ultimately show ?thesis
      using grown(1) l lay by (simp add: rd_add_same layout_defs)
  qed
  show "rd_le16 free_space_len_at (b_data node1) =
         rd_le16 free_space_len_at (b_data node) - (if toc_full node then word_of_int (toc_inc node) else 0)"
  proof (cases rule: cases)
    case same
    then show ?thesis by simp
  next
    case (grown raw1)
    have l: "length raw1 = length (b_data node)"
      using memmove_untouched [OF grown(2)] by (rule untouched_length)
    have "rd_le16 free_space_len_at raw1 = rd_le16 free_space_len_at (b_data node)"
      using lay toc_inc_pos [of node]
      by (intro untouched_rd(1) [OF memmove_untouched [OF grown(2)]]) (auto simp: layout_defs)
    moreover have "rd_le16 free_space_len_at (le16_add_cpu table_space_len_at (toc_inc node) raw1) =
        rd_le16 free_space_len_at raw1"
      by (intro untouched_rd(1) [OF untouched_wr(4)]) (auto simp: layout_defs)
    ultimately show ?thesis
      using grown(1) l lay unfolding grown(3) by (simp add: rd_add_same layout_defs)
  qed
qed


lemma insert_toc_entry_Some:
  assumes "0 \<le> index" "index \<le> n_records node"
    "toc_entry_at node (n_records node + 1) \<le> int (length (b_data node))"
  shows "\<exists>raw2. insert_toc_entry sb node index kl val vl = Some raw2"
proof -
  have m: "0 \<le> (n_records node - index) * toc_entry_size node"
    using assms toc_entry_size_cases [of node] by auto
  have e: "toc_entry_at node index + toc_entry_size node + (n_records node - index) * toc_entry_size node
      = toc_entry_at node (n_records node + 1)"
    by (simp add: toc_entry_at_def algebra_simps)
  have p: "0 \<le> toc_entry_at node index" "0 < toc_entry_size node"
    using assms toc_entry_size_cases [of node] by (auto simp: toc_entry_at_def layout_defs)
  have "in_block (toc_entry_at node index + toc_entry_size node) ((n_records node - index) * toc_entry_size node) (b_data node)"
    "in_block (toc_entry_at node index) ((n_records node - index) * toc_entry_size node) (b_data node)"
    using m e p assms(3) by (auto simp: in_block_def)
  moreover have "in_block (toc_entry_at node index) (toc_entry_size node) blk"
    if "length blk = length (b_data node)" for blk
    using m e p assms(3) that by (auto simp: in_block_def)
  ultimately show ?thesis
    by (auto simp: insert_toc_entry_def Let_def memmove_blk_def)
qed


lemma insert_toc_entry_unfold:
  assumes "insert_toc_entry sb node index kl val vl = Some raw2"
  shows "\<exists>raw1.
    memmove_blk (toc_entry_at node index + toc_entry_size node) (toc_entry_at node index)
       ((n_records node - index) * toc_entry_size node) (b_data node) = Some raw1 \<and>
    in_block (toc_entry_at node index) (toc_entry_size node) raw1 \<and>
    raw2 = (if n_has_fixed_kv_size node then
       wr_le16 (toc_entry_at node index) (word_of_int (n_free node - n_key node))
         (wr_le16 (toc_entry_at node index + 2)
            (case val of None \<Rightarrow> APFS_BTOFF_INVALID | Some v \<Rightarrow> word_of_int vl) raw1)
     else
       wr_le16 (toc_entry_at node index + 2) (word_of_int kl)
         (wr_le16 (toc_entry_at node index) (word_of_int (n_free node - n_key node))
           (wr_le16 (toc_entry_at node index + 6) (word_of_int vl)
             (wr_le16 (toc_entry_at node index + 4)
                (word_of_int (s_blocksize sb - n_data node - btree_info_size + vl)) raw1))))"
  using assms
  by (auto simp: insert_toc_entry_def Let_def split: bind_splits if_splits)

lemma insert_toc_entry_untouched:
  assumes ok: "insert_toc_entry sb node index kl val vl = Some raw2"
  shows "untouched [(toc_entry_at node index, toc_entry_at node (n_records node + 1))]
           (b_data node) raw2"
proof -
  from insert_toc_entry_unfold [OF ok] obtain raw1 where
    mm: "memmove_blk (toc_entry_at node index + toc_entry_size node) (toc_entry_at node index)
       ((n_records node - index) * toc_entry_size node) (b_data node) = Some raw1"
    and eq: "raw2 = (if n_has_fixed_kv_size node then
       wr_le16 (toc_entry_at node index) (word_of_int (n_free node - n_key node))
         (wr_le16 (toc_entry_at node index + 2)
            (case val of None \<Rightarrow> APFS_BTOFF_INVALID | Some v \<Rightarrow> word_of_int vl) raw1)
     else
       wr_le16 (toc_entry_at node index + 2) (word_of_int kl)
         (wr_le16 (toc_entry_at node index) (word_of_int (n_free node - n_key node))
           (wr_le16 (toc_entry_at node index + 6) (word_of_int vl)
             (wr_le16 (toc_entry_at node index + 4)
                (word_of_int (s_blocksize sb - n_data node - btree_info_size + vl)) raw1))))"
    by blast
  have m: "0 \<le> (n_records node - index) * toc_entry_size node"
    using mm by (auto simp: memmove_blk_def in_block_def split: if_splits)
  have e: "toc_entry_at node index + toc_entry_size node + (n_records node - index) * toc_entry_size node
      = toc_entry_at node (n_records node + 1)"
    by (simp add: toc_entry_at_def algebra_simps)
  note u1 = memmove_untouched [OF mm, unfolded e]
  let ?te = "toc_entry_at node index"
  show ?thesis
  proof (cases "n_has_fixed_kv_size node")
    case True
    then have t: "toc_entry_size node = 4" by (simp add: toc_entry_size_def layout_defs)
    have "untouched [(?te, ?te + 2), (?te + 2, ?te + 2 + 2),
        (?te + toc_entry_size node, toc_entry_at node (n_records node + 1))] (b_data node)
        (wr_le16 ?te (word_of_int (n_free node - n_key node))
         (wr_le16 (?te + 2)
            (case val of None \<Rightarrow> APFS_BTOFF_INVALID | Some v \<Rightarrow> word_of_int vl) raw1))"
      by (intro untouched_steps u1)
    then have "untouched [(?te, ?te + 2), (?te + 2, ?te + 2 + 2),
        (?te + toc_entry_size node, toc_entry_at node (n_records node + 1))] (b_data node) raw2"
      using eq True by simp
    then show ?thesis
      by (rule untouched_cover) (use m e t in simp)
  next
    case False
    then have t: "toc_entry_size node = 8" by (simp add: toc_entry_size_def layout_defs)
    have "untouched [(?te + 2, ?te + 2 + 2), (?te, ?te + 2), (?te + 6, ?te + 6 + 2),
        (?te + 4, ?te + 4 + 2),
        (?te + toc_entry_size node, toc_entry_at node (n_records node + 1))] (b_data node)
        (wr_le16 (?te + 2) (word_of_int kl)
         (wr_le16 ?te (word_of_int (n_free node - n_key node))
           (wr_le16 (?te + 6) (word_of_int vl)
             (wr_le16 (?te + 4)
                (word_of_int (s_blocksize sb - n_data node - btree_info_size + vl)) raw1))))"
      by (intro untouched_steps u1)
    then have "untouched [(?te + 2, ?te + 2 + 2), (?te, ?te + 2), (?te + 6, ?te + 6 + 2),
        (?te + 4, ?te + 4 + 2),
        (?te + toc_entry_size node, toc_entry_at node (n_records node + 1))] (b_data node) raw2"
      using eq False by simp
    then show ?thesis
      by (rule untouched_cover) (use m e t in simp)
  qed
qed


lemma insert_toc_entry_shift:
  assumes ok: "insert_toc_entry sb node index kl val vl = Some raw2"
    and c: "0 \<le> c" "0 \<le> n" "c + n \<le> (n_records node - index) * toc_entry_size node"
    and idx: "0 \<le> index"
  shows "get_bytes (toc_entry_at node (index + 1) + c) n raw2 =
         get_bytes (toc_entry_at node index + c) n (b_data node)"
proof -
  let ?te = "toc_entry_at node index" and ?tes = "toc_entry_size node"
  from insert_toc_entry_unfold [OF ok] obtain raw1 where
    mm: "memmove_blk (?te + ?tes) ?te ((n_records node - index) * ?tes) (b_data node) = Some raw1"
    and eq: "raw2 = (if n_has_fixed_kv_size node then
       wr_le16 ?te (word_of_int (n_free node - n_key node))
         (wr_le16 (?te + 2)
            (case val of None \<Rightarrow> APFS_BTOFF_INVALID | Some v \<Rightarrow> word_of_int vl) raw1)
     else
       wr_le16 (?te + 2) (word_of_int kl)
         (wr_le16 ?te (word_of_int (n_free node - n_key node))
           (wr_le16 (?te + 6) (word_of_int vl)
             (wr_le16 (?te + 4)
                (word_of_int (s_blocksize sb - n_data node - btree_info_size + vl)) raw1))))"
    by blast
  have tes: "?tes = 4 \<and> n_has_fixed_kv_size node \<or> ?tes = 8 \<and> \<not> n_has_fixed_kv_size node"
    by (simp add: toc_entry_size_def layout_defs)
  have p: "0 \<le> ?te" using idx tes by (auto simp: toc_entry_at_def layout_defs)
  have u: "untouched [(?te, ?te + ?tes)] raw1 raw2"
  proof (cases "n_has_fixed_kv_size node")
    case True
    have "untouched [(?te, ?te + 2), (?te + 2, ?te + 2 + 2)] raw1
        (wr_le16 ?te (word_of_int (n_free node - n_key node))
         (wr_le16 (?te + 2)
            (case val of None \<Rightarrow> APFS_BTOFF_INVALID | Some v \<Rightarrow> word_of_int vl) raw1))"
      by (intro untouched_steps untouched_refl)
    then have "untouched [(?te, ?te + 2), (?te + 2, ?te + 2 + 2)] raw1 raw2"
      using eq True by simp
    then show ?thesis by (rule untouched_cover) (use tes True in simp)
  next
    case False
    have "untouched [(?te + 2, ?te + 2 + 2), (?te, ?te + 2), (?te + 6, ?te + 6 + 2),
        (?te + 4, ?te + 4 + 2)] raw1
        (wr_le16 (?te + 2) (word_of_int kl)
         (wr_le16 ?te (word_of_int (n_free node - n_key node))
           (wr_le16 (?te + 6) (word_of_int vl)
             (wr_le16 (?te + 4)
                (word_of_int (s_blocksize sb - n_data node - btree_info_size + vl)) raw1))))"
      by (intro untouched_steps untouched_refl)
    then have "untouched [(?te + 2, ?te + 2 + 2), (?te, ?te + 2), (?te + 6, ?te + 6 + 2),
        (?te + 4, ?te + 4 + 2)] raw1 raw2"
      using eq False by simp
    then show ?thesis by (rule untouched_cover) (use tes False in simp)
  qed
  have a: "toc_entry_at node (index + 1) = ?te + ?tes"
    by (simp add: toc_entry_at_def algebra_simps)
  have "get_bytes (?te + ?tes + c) n raw2 = get_bytes (?te + ?tes + c) n raw1"
    using p c tes by (intro untouched_get [OF u]) auto
  also have "\<dots> = get_bytes (?te + c) n (b_data node)"
    using c by (intro memmove_content [OF mm]) auto
  finally show ?thesis by (simp add: a)
qed

lemma insert_toc_entry_slot:
  assumes ok: "insert_toc_entry sb node index kl val vl = Some raw2" and idx: "0 \<le> index"
  shows "rd_le16 (toc_entry_at node index) raw2 = word_of_int (n_free node - n_key node)"
    and "n_has_fixed_kv_size node \<Longrightarrow> rd_le16 (toc_entry_at node index + 2) raw2 =
           (case val of None \<Rightarrow> APFS_BTOFF_INVALID | Some v \<Rightarrow> word_of_int vl)"
    and "\<not> n_has_fixed_kv_size node \<Longrightarrow> rd_le16 (toc_entry_at node index + 2) raw2 = word_of_int kl"
    and "\<not> n_has_fixed_kv_size node \<Longrightarrow> rd_le16 (toc_entry_at node index + 4) raw2 =
           word_of_int (s_blocksize sb - n_data node - btree_info_size + vl)"
    and "\<not> n_has_fixed_kv_size node \<Longrightarrow> rd_le16 (toc_entry_at node index + 6) raw2 = word_of_int vl"
proof -
  let ?te = "toc_entry_at node index" and ?tes = "toc_entry_size node"
  from insert_toc_entry_unfold [OF ok] obtain raw1 where
    ib: "in_block ?te ?tes raw1"
    and eq: "raw2 = (if n_has_fixed_kv_size node then
       wr_le16 ?te (word_of_int (n_free node - n_key node))
         (wr_le16 (?te + 2)
            (case val of None \<Rightarrow> APFS_BTOFF_INVALID | Some v \<Rightarrow> word_of_int vl) raw1)
     else
       wr_le16 (?te + 2) (word_of_int kl)
         (wr_le16 ?te (word_of_int (n_free node - n_key node))
           (wr_le16 (?te + 6) (word_of_int vl)
             (wr_le16 (?te + 4)
                (word_of_int (s_blocksize sb - n_data node - btree_info_size + vl)) raw1))))"
    by blast
  have tes: "?tes = 4 \<and> n_has_fixed_kv_size node \<or> ?tes = 8 \<and> \<not> n_has_fixed_kv_size node"
    by (simp add: toc_entry_size_def layout_defs)
  have r: "0 \<le> ?te" "?te + ?tes \<le> int (length raw1)"
    using ib by (simp_all add: in_block_def)
  show "rd_le16 ?te raw2 = word_of_int (n_free node - n_key node)"
    using r tes unfolding eq
    by (auto simp: wr_le16_def rd_le16_put_same rd_le16_put_disjoint)
  show "rd_le16 (?te + 2) raw2 = (case val of None \<Rightarrow> APFS_BTOFF_INVALID | Some v \<Rightarrow> word_of_int vl)"
    if "n_has_fixed_kv_size node"
    using r tes that unfolding eq
    by (auto simp: wr_le16_def rd_le16_put_same rd_le16_put_disjoint)
  show "rd_le16 (?te + 2) raw2 = word_of_int kl" if "\<not> n_has_fixed_kv_size node"
    using r tes that unfolding eq
    by (auto simp: wr_le16_def rd_le16_put_same rd_le16_put_disjoint)
  show "rd_le16 (?te + 4) raw2 = word_of_int (s_blocksize sb - n_data node - btree_info_size + vl)"
    if "\<not> n_has_fixed_kv_size node"
    using r tes that unfolding eq
    by (auto simp: wr_le16_def rd_le16_put_same rd_le16_put_disjoint)
  show "rd_le16 (?te + 6) raw2 = word_of_int vl" if "\<not> n_has_fixed_kv_size node"
    using r tes that unfolding eq
    by (auto simp: wr_le16_def rd_le16_put_same rd_le16_put_disjoint)
qed


lemma write_key_Some:
  "in_block (n_free node) kl (b_data node) \<Longrightarrow> kl \<le> int (length key) \<Longrightarrow>
   \<exists>node3. write_key node key kl = Some node3"
  by (simp add: write_key_def memcpy_in_def)

lemma write_key_props:
  assumes ok: "write_key node key kl = Some node3"
    and lay: "node_phys_size \<le> n_free node" "node_phys_size \<le> int (length (b_data node))"
  shows "n_free node3 = n_free node + kl" and "n_key node3 = n_key node"
    and "n_data node3 = n_data node" and "n_records node3 = n_records node"
    and "n_is_root node3 = n_is_root node" and "n_is_leaf node3 = n_is_leaf node"
    and "n_has_fixed_kv_size node3 = n_has_fixed_kv_size node"
    and "untouched [(free_space_len_at, free_space_len_at + 2),
           (free_space_off_at, free_space_off_at + 2), (n_free node, n_free node + kl)]
           (b_data node) (b_data node3)"
    and "get_bytes (n_free node) kl (b_data node3) = take (nat kl) key"
    and "rd_le16 free_space_off_at (b_data node3) =
         rd_le16 free_space_off_at (b_data node) + word_of_int kl"
    and "rd_le16 free_space_len_at (b_data node3) =
         rd_le16 free_space_len_at (b_data node) - word_of_int kl"
proof -
  from ok obtain raw1 where mc: "memcpy_in (n_free node) key kl (b_data node) = Some raw1"
    and eq: "node3 = node\<lparr>n_free := n_free node + kl,
               b_data := le16_add_cpu free_space_len_at (- kl)
                           (le16_add_cpu free_space_off_at kl raw1)\<rparr>"
    by (auto simp: write_key_def split: bind_splits)
  show "n_free node3 = n_free node + kl" "n_key node3 = n_key node"
    "n_data node3 = n_data node" "n_records node3 = n_records node"
    "n_is_root node3 = n_is_root node" "n_is_leaf node3 = n_is_leaf node"
    "n_has_fixed_kv_size node3 = n_has_fixed_kv_size node"
    by (simp_all add: eq)
  note u1 = memcpy_untouched [OF mc]
  have l1: "length raw1 = length (b_data node)" using u1 by (rule untouched_length)
  have kl: "0 \<le> kl" using mc by (auto simp: memcpy_in_def in_block_def split: if_splits)
  show "untouched [(free_space_len_at, free_space_len_at + 2),
           (free_space_off_at, free_space_off_at + 2), (n_free node, n_free node + kl)]
           (b_data node) (b_data node3)"
    unfolding eq by (simp, intro untouched_steps u1)
  have u2: "untouched [(free_space_len_at, free_space_len_at + 2),
           (free_space_off_at, free_space_off_at + 2)] raw1 (b_data node3)"
    unfolding eq by (simp, intro untouched_steps untouched_refl)
  have "get_bytes (n_free node) kl (b_data node3) = get_bytes (n_free node) kl raw1"
    using lay by (intro untouched_get [OF u2]) (auto simp: layout_defs)
  then show "get_bytes (n_free node) kl (b_data node3) = take (nat kl) key"
    using memcpy_content [OF mc] by simp
  have o1: "rd_le16 free_space_off_at raw1 = rd_le16 free_space_off_at (b_data node)"
    using lay by (intro untouched_rd(1) [OF u1]) (auto simp: layout_defs)
  have f1: "rd_le16 free_space_len_at raw1 = rd_le16 free_space_len_at (b_data node)"
    using lay by (intro untouched_rd(1) [OF u1]) (auto simp: layout_defs)
  have "rd_le16 free_space_off_at (b_data node3) =
      rd_le16 free_space_off_at (le16_add_cpu free_space_off_at kl raw1)"
    unfolding eq by (simp, intro untouched_rd(1) [OF untouched_wr(4)]) (auto simp: layout_defs)
  then show "rd_le16 free_space_off_at (b_data node3) =
         rd_le16 free_space_off_at (b_data node) + word_of_int kl"
    using o1 l1 lay by (simp add: rd_add_same layout_defs)
  have "rd_le16 free_space_len_at (le16_add_cpu free_space_off_at kl raw1) =
      rd_le16 free_space_len_at raw1"
    by (intro untouched_rd(1) [OF untouched_wr(4)]) (auto simp: layout_defs)
  then show "rd_le16 free_space_len_at (b_data node3) =
         rd_le16 free_space_len_at (b_data node) - word_of_int kl"
    using f1 l1 lay unfolding eq by (simp add: rd_add_same layout_defs)
qed

lemma write_val_Some:
  "(case val of None \<Rightarrow> True
    | Some v \<Rightarrow> in_block (n_data node - vl) vl (b_data node) \<and> vl \<le> int (length v)) \<Longrightarrow>
   \<exists>node4. write_val node val vl = Some node4"
  by (auto simp: write_val_def memcpy_in_def split: option.splits)

lemma write_val_props:
  assumes ok: "write_val node val vl = Some node4"
    and lay: "node_phys_size \<le> n_data node - vl" "node_phys_size \<le> int (length (b_data node))"
  shows "n_data node4 = (case val of None \<Rightarrow> n_data node | Some v \<Rightarrow> n_data node - vl)"
    and "n_key node4 = n_key node" and "n_free node4 = n_free node"
    and "n_records node4 = n_records node"
    and "n_is_root node4 = n_is_root node" and "n_is_leaf node4 = n_is_leaf node"
    and "n_has_fixed_kv_size node4 = n_has_fixed_kv_size node"
    and "untouched [(free_space_len_at, free_space_len_at + 2), (n_data node - vl, n_data node)]
           (b_data node) (b_data node4)"
    and "\<And>v. val = Some v \<Longrightarrow> get_bytes (n_data node - vl) vl (b_data node4) = take (nat vl) v"
    and "val = None \<Longrightarrow> b_data node4 = b_data node"
    and "rd_le16 free_space_len_at (b_data node4) =
         rd_le16 free_space_len_at (b_data node) - (case val of None \<Rightarrow> 0 | Some v \<Rightarrow> word_of_int vl)"
proof -
  consider (ghost) "val = None" "node4 = node"
    | (valued) v raw1 where "val = Some v"
        "memcpy_in (n_data node - vl) v vl (b_data node) = Some raw1"
        "node4 = node\<lparr>n_data := n_data node - vl,
                    b_data := le16_add_cpu free_space_len_at (- vl) raw1\<rparr>"
    using ok by (cases val) (auto simp: write_val_def split: bind_splits)
  note cases = this
  show "n_data node4 = (case val of None \<Rightarrow> n_data node | Some v \<Rightarrow> n_data node - vl)"
    "n_key node4 = n_key node" "n_free node4 = n_free node" "n_records node4 = n_records node"
    "n_is_root node4 = n_is_root node" "n_is_leaf node4 = n_is_leaf node"
    "n_has_fixed_kv_size node4 = n_has_fixed_kv_size node"
    by (cases rule: cases; simp)+
  show "val = None \<Longrightarrow> b_data node4 = b_data node"
    by (cases rule: cases) simp_all
  show "untouched [(free_space_len_at, free_space_len_at + 2), (n_data node - vl, n_data node)]
           (b_data node) (b_data node4)"
  proof (cases rule: cases)
    case ghost
    then show ?thesis by (simp add: untouched_refl)
  next
    case (valued v raw1)
    show ?thesis
      unfolding valued(3) using memcpy_untouched [OF valued(2)]
      by (simp, intro untouched_steps) simp
  qed
  show "get_bytes (n_data node - vl) vl (b_data node4) = take (nat vl) v" if "val = Some v" for v
  proof (cases rule: cases)
    case ghost
    with that show ?thesis by simp
  next
    case (valued v' raw1)
    have "get_bytes (n_data node - vl) vl (b_data node4) = get_bytes (n_data node - vl) vl raw1"
      unfolding valued(3) using lay
      by (simp, intro untouched_get [OF untouched_wr(4)]) (auto simp: layout_defs)
    then show ?thesis
      using memcpy_content [OF valued(2)] valued(1) that by simp
  qed
  show "rd_le16 free_space_len_at (b_data node4) =
         rd_le16 free_space_len_at (b_data node) - (case val of None \<Rightarrow> 0 | Some v \<Rightarrow> word_of_int vl)"
  proof (cases rule: cases)
    case ghost
    then show ?thesis by simp
  next
    case (valued v raw1)
    note u1 = memcpy_untouched [OF valued(2)]
    have l1: "length raw1 = length (b_data node)" using u1 by (rule untouched_length)
    have "rd_le16 free_space_len_at raw1 = rd_le16 free_space_len_at (b_data node)"
      using lay by (intro untouched_rd(1) [OF u1]) (auto simp: layout_defs)
    then show ?thesis
      using valued(1) l1 lay unfolding valued(3) by (simp add: rd_add_same layout_defs)
  qed
qed


lemma untouched_steps2:
  "untouched ws b0 blk \<Longrightarrow>
   untouched ((o_cksum_at, o_cksum_at + 8) # ws) b0 (apfs_obj_set_csum sb blk)"
  "untouched ws b0 blk \<Longrightarrow>
   untouched ((off, off + 4) # ws) b0 (if c then wr_le32 off v blk else blk)"
  by (auto simp: apfs_obj_set_csum_def intro: untouched_steps elim: untouched_mono)

lemma update_info_fields:
  "n_records (update_info sb node kl vl) = n_records node + 1"
  "n_key (update_info sb node kl vl) = n_key node"
  "n_free (update_info sb node kl vl) = n_free node"
  "n_data (update_info sb node kl vl) = n_data node"
  "n_is_root (update_info sb node kl vl) = n_is_root node"
  "n_is_leaf (update_info sb node kl vl) = n_is_leaf node"
  "n_has_fixed_kv_size (update_info sb node kl vl) = n_has_fixed_kv_size node"
  "b_dirty (update_info sb node kl vl)"
  by (simp_all add: update_info_def Let_def)

lemma update_info_untouched:
  "untouched [(o_cksum_at, o_cksum_at + 8),
      (info_at sb + bt_longest_val_in, info_at sb + bt_longest_val_in + 4),
      (info_at sb + bt_longest_key_in, info_at sb + bt_longest_key_in + 4),
      (btn_nkeys_at, btn_nkeys_at + 4),
      (info_at sb + bt_key_count_in, info_at sb + bt_key_count_in + 8)]
     (b_data node) (b_data (update_info sb node kl vl))"
proof -
  define r1 where "r1 = le64_add_cpu (info_at sb + bt_key_count_in) 1 (b_data node)"
  define r2 where "r2 = wr_le32 btn_nkeys_at (word_of_int (n_records node + 1)) r1"
  define r3 where "r3 = (if (word_of_int kl :: u32) > rd_le32 (info_at sb + bt_longest_key_in) r2
                  then wr_le32 (info_at sb + bt_longest_key_in) (word_of_int kl) r2 else r2)"
  define r4 where "r4 = (if (word_of_int vl :: u32) > rd_le32 (info_at sb + bt_longest_val_in) r3
                  then wr_le32 (info_at sb + bt_longest_val_in) (word_of_int vl) r3 else r3)"
  have eq: "b_data (update_info sb node kl vl) = apfs_obj_set_csum sb r4"
    by (simp add: update_info_def Let_def r1_def r2_def r3_def r4_def)
  show ?thesis
    unfolding eq r4_def r3_def r2_def r1_def
    by (intro untouched_steps untouched_steps2 untouched_refl)
qed

lemma update_info_counters:
  assumes "buffer_ok sb node"
  shows "rd_le64 (info_at sb + bt_key_count_in) (b_data (update_info sb node kl vl)) =
         rd_le64 (info_at sb + bt_key_count_in) (b_data node) + 1"
    and "rd_le32 btn_nkeys_at (b_data (update_info sb node kl vl)) = word_of_int (n_records node + 1)"
    and "rd_le32 (info_at sb + bt_longest_key_in) (b_data (update_info sb node kl vl)) =
         max (rd_le32 (info_at sb + bt_longest_key_in) (b_data node)) (word_of_int kl)"
    and "rd_le32 (info_at sb + bt_longest_val_in) (b_data (update_info sb node kl vl)) =
         max (rd_le32 (info_at sb + bt_longest_val_in) (b_data node)) (word_of_int vl)"
  using assms
  by (auto simp: update_info_def Let_def info_at_def apfs_obj_set_csum_def wr_defs rd_put
      buffer_ok_def layout_defs max_def not_less)


subsection \<open>The insert as a whole\<close>

lemma insert_steps:
  assumes wf: "root_leaf_node sb (q_node query)"
    and args: "insert_args_ok query key kl val vl"
    and fit1: "n_free (q_node query) + kl + vl \<le> n_data (q_node query)"
    and fit2: "toc_full (q_node query) \<longrightarrow>
        n_free (q_node query) + toc_inc (q_node query) + kl + vl \<le> n_data (q_node query)"
  obtains node1 raw2 node3 node4 where
    "expand_toc (q_node query) kl vl = Success node1"
    "insert_toc_entry sb node1 (q_index query + 1) kl val vl = Some raw2"
    "write_key (node1\<lparr>b_data := raw2\<rparr>) key kl = Some node3"
    "write_val node3 val vl = Some node4"
    "apfs_btree_insert sb query key kl val vl =
       Success (query\<lparr>q_node := update_info sb node4 kl vl, q_index := q_index query + 1\<rparr>)"
proof -
  let ?node = "q_node query"
  have tes: "toc_entry_size ?node = 4 \<or> toc_entry_size ?node = 8"
    by (rule toc_entry_size_cases)
  have lay: "int (length (b_data ?node)) = s_blocksize sb" "0 \<le> n_records ?node"
    "toc_entry_at ?node (n_records ?node) \<le> n_key ?node" "n_key ?node \<le> n_free ?node"
    "n_data ?node \<le> s_blocksize sb - 40" "n_is_root ?node" "n_is_leaf ?node"
    "s_xid sb = rd_le64 o_xid_at (b_data ?node)" "buffer_ok sb ?node" "96 \<le> s_blocksize sb"
    using wf by (simp_all add: root_leaf_node_def buffer_ok_def toc_entry_at_def layout_defs)
  have a: "- 1 \<le> q_index query" "q_index query < n_records ?node" "0 \<le> kl"
    "kl \<le> int (length key)" "0 \<le> vl"
    "case val of None \<Rightarrow> True | Some v \<Rightarrow> vl \<le> int (length v)"
    using args by (simp_all add: insert_args_ok_def)
  have k56: "56 \<le> n_key ?node"
    using lay tes by (auto simp: toc_entry_at_def layout_defs)
  obtain node1 where e: "expand_toc ?node kl vl = Success node1"
  proof (cases "toc_full ?node")
    case True
    with expand_toc_grows [of ?node kl vl] fit2 k56 lay a that show ?thesis by auto
  next
    case False
    with expand_toc_fits [of ?node kl vl] that show ?thesis by auto
  qed
  note A = expand_toc_Success [OF e]
  have A': "n_key node1 = n_key ?node + toc_growth ?node"
    "n_free node1 = n_free ?node + toc_growth ?node"
    "n_records node1 = n_records ?node" "n_data node1 = n_data ?node"
    "n_has_fixed_kv_size node1 = n_has_fixed_kv_size ?node"
    "length (b_data node1) = length (b_data ?node)"
    using A(1-7) untouched_length [OF A(8)] k56 lay
    by (simp_all add: toc_growth_def layout_defs)
  have te1: "toc_entry_at node1 i = toc_entry_at ?node i"
    "toc_entry_size node1 = toc_entry_size ?node" for i
    using A'(5) by (simp_all add: toc_entry_at_def toc_entry_size_def)
  have g: "0 \<le> toc_growth ?node" "toc_entry_at ?node (n_records ?node + 1) \<le> n_key node1"
    "n_free node1 + kl + vl \<le> n_data ?node"
    using toc_inc_pos [of ?node] tes lay fit1 fit2 A'(1,2)
    by (auto simp: toc_growth_def toc_full_def toc_inc_def toc_entry_at_def layout_defs)
  have "\<exists>raw2. insert_toc_entry sb node1 (q_index query + 1) kl val vl = Some raw2"
    using a lay g A' by (intro insert_toc_entry_Some) (auto simp: te1)
  then obtain raw2 where b: "insert_toc_entry sb node1 (q_index query + 1) kl val vl = Some raw2" ..
  have l2: "length raw2 = length (b_data ?node)"
    using untouched_length [OF insert_toc_entry_untouched [OF b]] A' by simp
  have "\<exists>node3. write_key (node1\<lparr>b_data := raw2\<rparr>) key kl = Some node3"
    using a lay g A' l2 k56 by (intro write_key_Some) (auto simp: in_block_def)
  then obtain node3 where c: "write_key (node1\<lparr>b_data := raw2\<rparr>) key kl = Some node3" ..
  have C': "n_data node3 = n_data ?node" "length (b_data node3) = length (b_data ?node)"
    using c l2 A' by (auto simp: write_key_def memcpy_in_def split: bind_splits if_splits)
  have "\<exists>node4. write_val node3 val vl = Some node4"
    using a lay g A' C' k56
    by (intro write_val_Some) (auto simp: in_block_def split: option.splits)
  then obtain node4 where d: "write_val node3 val vl = Some node4" ..
  have "apfs_btree_insert sb query key kl val vl =
       Success (query\<lparr>q_node := update_info sb node4 kl vl, q_index := q_index query + 1\<rparr>)"
    using lay fit1 e b c d by (simp add: apfs_btree_insert_def Let_def)
  with e b c d that show ?thesis by blast
qed


lemma insert_effects:
  assumes wf: "root_leaf_node sb (q_node query)"
    and args: "insert_args_ok query key kl val vl"
    and fit1: "n_free (q_node query) + kl + vl \<le> n_data (q_node query)"
    and fit2: "toc_full (q_node query) \<longrightarrow>
        n_free (q_node query) + toc_inc (q_node query) + kl + vl \<le> n_data (q_node query)"
  obtains (eff) node' where
    "apfs_btree_insert sb query key kl val vl =
       Success (query\<lparr>q_node := node', q_index := q_index query + 1\<rparr>)"
    "n_records node' = n_records (q_node query) + 1"
    "n_key node' = n_key (q_node query) + toc_growth (q_node query)"
    "n_free node' = n_free (q_node query) + toc_growth (q_node query) + kl"
    "n_data node' = n_data (q_node query) - val_written val vl"
    "n_is_root node'" "n_is_leaf node'"
    "n_has_fixed_kv_size node' = n_has_fixed_kv_size (q_node query)"
    "b_dirty node'"
    "untouched [(o_cksum_at, o_cksum_at + 8), (btn_nkeys_at, btn_nkeys_at + 4),
        (table_space_len_at, free_space_len_at + 2),
        (toc_entry_at (q_node query) (q_index query + 1),
         toc_entry_at (q_node query) (n_records (q_node query) + 1)),
        (if toc_full (q_node query) then n_key (q_node query) + toc_inc (q_node query)
         else n_free (q_node query),
         n_free (q_node query) + toc_growth (q_node query) + kl),
        (n_data (q_node query) - val_written val vl, n_data (q_node query)),
        (info_at sb + bt_longest_key_in, info_at sb + bt_key_count_in + 8)]
       (b_data (q_node query)) (b_data node')"
    "\<And>c n. 0 \<le> c \<Longrightarrow> 0 \<le> n \<Longrightarrow>
       c + n \<le> (n_records (q_node query) - (q_index query + 1)) * toc_entry_size (q_node query) \<Longrightarrow>
       get_bytes (toc_entry_at (q_node query) (q_index query + 2) + c) n (b_data node') =
       get_bytes (toc_entry_at (q_node query) (q_index query + 1) + c) n (b_data (q_node query))"
    "rd_le16 (toc_entry_at (q_node query) (q_index query + 1)) (b_data node') =
       word_of_int (n_free (q_node query) - n_key (q_node query))"
    "n_has_fixed_kv_size (q_node query) \<Longrightarrow>
       rd_le16 (toc_entry_at (q_node query) (q_index query + 1) + 2) (b_data node') =
       (case val of None \<Rightarrow> APFS_BTOFF_INVALID | Some v \<Rightarrow> word_of_int vl)"
    "\<not> n_has_fixed_kv_size (q_node query) \<Longrightarrow>
       rd_le16 (toc_entry_at (q_node query) (q_index query + 1) + 2) (b_data node') = word_of_int kl \<and>
       rd_le16 (toc_entry_at (q_node query) (q_index query + 1) + 4) (b_data node') =
         word_of_int (s_blocksize sb - n_data (q_node query) - btree_info_size + vl) \<and>
       rd_le16 (toc_entry_at (q_node query) (q_index query + 1) + 6) (b_data node') = word_of_int vl"
    "get_bytes (n_free (q_node query) + toc_growth (q_node query)) kl (b_data node') = take (nat kl) key"
    "\<And>v. val = Some v \<Longrightarrow>
       get_bytes (n_data (q_node query) - vl) vl (b_data node') = take (nat vl) v"
    "get_bytes (n_key (q_node query) + toc_growth (q_node query))
       (n_free (q_node query) - n_key (q_node query)) (b_data node') =
     get_bytes (n_key (q_node query)) (n_free (q_node query) - n_key (q_node query))
       (b_data (q_node query))"
    "rd_le16 table_space_len_at (b_data node') =
       rd_le16 table_space_len_at (b_data (q_node query)) + word_of_int (toc_growth (q_node query))"
    "rd_le16 free_space_off_at (b_data node') =
       rd_le16 free_space_off_at (b_data (q_node query)) + word_of_int kl"
    "rd_le16 free_space_len_at (b_data node') =
       rd_le16 free_space_len_at (b_data (q_node query)) - word_of_int (toc_growth (q_node query))
         - word_of_int kl - word_of_int (val_written val vl)"
    "rd_le64 (info_at sb + bt_key_count_in) (b_data node') =
       rd_le64 (info_at sb + bt_key_count_in) (b_data (q_node query)) + 1"
    "rd_le32 btn_nkeys_at (b_data node') = word_of_int (n_records (q_node query) + 1)"
    "rd_le32 (info_at sb + bt_longest_key_in) (b_data node') =
       max (rd_le32 (info_at sb + bt_longest_key_in) (b_data (q_node query))) (word_of_int kl)"
    "rd_le32 (info_at sb + bt_longest_val_in) (b_data node') =
       max (rd_le32 (info_at sb + bt_longest_val_in) (b_data (q_node query))) (word_of_int vl)"
    "root_leaf_node sb node'"
proof -
  let ?node = "q_node query"
  let ?idx = "q_index query + 1"
  from insert_steps [OF assms] obtain node1 raw2 node3 node4 where
    e: "expand_toc ?node kl vl = Success node1"
    and b: "insert_toc_entry sb node1 ?idx kl val vl = Some raw2"
    and c: "write_key (node1\<lparr>b_data := raw2\<rparr>) key kl = Some node3"
    and d: "write_val node3 val vl = Some node4"
    and r: "apfs_btree_insert sb query key kl val vl =
       Success (query\<lparr>q_node := update_info sb node4 kl vl, q_index := ?idx\<rparr>)"
    by blast
  define node5 where "node5 = update_info sb node4 kl vl"
  have tes: "toc_entry_size ?node = 4 \<or> toc_entry_size ?node = 8"
    by (rule toc_entry_size_cases)
  have lay: "int (length (b_data ?node)) = s_blocksize sb" "0 \<le> n_records ?node"
    "toc_entry_at ?node (n_records ?node) \<le> n_key ?node" "n_key ?node \<le> n_free ?node"
    "n_data ?node \<le> s_blocksize sb - 40" "n_is_root ?node" "n_is_leaf ?node"
    "s_xid sb = rd_le64 o_xid_at (b_data ?node)" "buffer_ok sb ?node" "96 \<le> s_blocksize sb"
    using wf by (simp_all add: root_leaf_node_def buffer_ok_def toc_entry_at_def layout_defs)
  have a: "- 1 \<le> q_index query" "q_index query < n_records ?node" "0 \<le> kl"
    "kl \<le> int (length key)" "0 \<le> vl"
    using args by (simp_all add: insert_args_ok_def)
  have k56: "56 \<le> n_key ?node"
    using lay tes by (auto simp: toc_entry_at_def layout_defs)
  have layA: "node_phys_size \<le> n_key ?node" "node_phys_size \<le> int (length (b_data ?node))"
    using k56 lay by (simp_all add: layout_defs)
  note A = expand_toc_Success [OF e layA]
  have A': "n_key node1 = n_key ?node + toc_growth ?node"
    "n_free node1 = n_free ?node + toc_growth ?node"
    "n_records node1 = n_records ?node" "n_data node1 = n_data ?node"
    "n_has_fixed_kv_size node1 = n_has_fixed_kv_size ?node"
    "n_is_root node1" "n_is_leaf node1"
    "length (b_data node1) = length (b_data ?node)"
    using A(1-7) untouched_length [OF A(8)] lay
    by (simp_all add: toc_growth_def)
  have te1: "toc_entry_at node1 i = toc_entry_at ?node i"
    "toc_entry_size node1 = toc_entry_size ?node" for i
    using A'(5) by (simp_all add: toc_entry_at_def toc_entry_size_def)
  have g: "0 \<le> toc_growth ?node" "toc_entry_at ?node (n_records ?node + 1) \<le> n_key node1"
    "n_free node1 + kl + vl \<le> n_data ?node"
    using toc_inc_pos [of ?node] tes lay fit1 fit2 A'(1,2)
    by (auto simp: toc_growth_def toc_full_def toc_inc_def toc_entry_at_def layout_defs)
  let ?keys = "(if toc_full ?node then n_key ?node + toc_inc ?node else n_free ?node,
        n_free ?node + toc_growth ?node + kl)"
  have UA: "untouched [?keys, (table_space_len_at, free_space_len_at + 2)]
      (b_data ?node) (b_data node1)"
  proof (cases "toc_full ?node")
    case True
    show ?thesis
      using A(8)
      by (rule untouched_cover) (use a in \<open>simp add: True toc_growth_def layout_defs\<close>)
  next
    case False
    with e have "node1 = ?node" by (simp add: expand_toc_fits)
    then show ?thesis by (simp add: untouched_refl)
  qed
  have UB: "untouched [(toc_entry_at ?node ?idx, toc_entry_at ?node (n_records ?node + 1))]
      (b_data node1) raw2"
    using insert_toc_entry_untouched [OF b] by (simp add: te1 A')
  have l2: "length raw2 = length (b_data ?node)"
    using untouched_length [OF UB] A' by simp
  have layC: "node_phys_size \<le> n_free (node1\<lparr>b_data := raw2\<rparr>)"
    "node_phys_size \<le> int (length (b_data (node1\<lparr>b_data := raw2\<rparr>)))"
    using A' g k56 l2 lay by (simp_all add: layout_defs)
  note C = write_key_props [OF c layC]
  have C': "n_free node3 = n_free ?node + toc_growth ?node + kl" "n_key node3 = n_key node1"
    "n_data node3 = n_data ?node" "n_records node3 = n_records ?node"
    "n_is_root node3" "n_is_leaf node3"
    "n_has_fixed_kv_size node3 = n_has_fixed_kv_size ?node"
    "length (b_data node3) = length (b_data ?node)"
    using C(1-7) untouched_length [OF C(8)] A' l2 by simp_all
  have UC: "untouched [(table_space_len_at, free_space_len_at + 2), ?keys] raw2 (b_data node3)"
    using C(8) [simplified]
    by (rule untouched_cover) (use lay in \<open>simp add: A' layout_defs toc_growth_def\<close>)
  have lay3: "node_phys_size \<le> n_data node3 - vl" "node_phys_size \<le> int (length (b_data node3))"
    using C' A' g k56 a lay by (simp_all add: layout_defs)
  note D = write_val_props [OF d lay3]
  have D': "n_data node4 = n_data ?node - val_written val vl" "n_key node4 = n_key node1"
    "n_free node4 = n_free ?node + toc_growth ?node + kl" "n_records node4 = n_records ?node"
    "n_is_root node4" "n_is_leaf node4"
    "n_has_fixed_kv_size node4 = n_has_fixed_kv_size ?node"
    "length (b_data node4) = length (b_data ?node)"
    using D(1-7) untouched_length [OF D(8)] C'
    by (simp_all add: val_written_def split: option.splits)
  have UD: "untouched [(table_space_len_at, free_space_len_at + 2),
        (n_data ?node - val_written val vl, n_data ?node)] (b_data node3) (b_data node4)"
  proof (cases val)
    case None
    with D(10) show ?thesis by (simp add: untouched_refl)
  next
    case (Some v)
    show ?thesis
      using D(8)
      by (rule untouched_cover) (simp add: Some val_written_def C' layout_defs)
  qed
  have UE: "untouched [(o_cksum_at, o_cksum_at + 8), (btn_nkeys_at, btn_nkeys_at + 4),
        (info_at sb + bt_longest_key_in, info_at sb + bt_key_count_in + 8)]
      (b_data node4) (b_data node5)"
    unfolding node5_def using update_info_untouched [of sb node4 kl vl]
    by (rule untouched_cover) (simp add: layout_defs)
  note U = untouched_trans [OF UA untouched_trans [OF UB untouched_trans [OF UC
        untouched_trans [OF UD UE]]]]
  have U05: "untouched [(o_cksum_at, o_cksum_at + 8), (btn_nkeys_at, btn_nkeys_at + 4),
        (table_space_len_at, free_space_len_at + 2),
        (toc_entry_at ?node ?idx, toc_entry_at ?node (n_records ?node + 1)),
        ?keys,
        (n_data ?node - val_written val vl, n_data ?node),
        (info_at sb + bt_longest_key_in, info_at sb + bt_key_count_in + 8)]
       (b_data ?node) (b_data node5)"
    using U by (rule untouched_mono) simp
  note U45 = UE
  note U35 = untouched_trans [OF UD UE]
  note U25 = untouched_trans [OF UC U35]
  note U15 = untouched_trans [OF UB U25]
  have ar: "56 \<le> n_key ?node" "n_key ?node \<le> n_free ?node"
    "n_free ?node + toc_growth ?node + kl + vl \<le> n_data ?node"
    "n_data ?node \<le> s_blocksize sb - 40" "0 \<le> kl" "0 \<le> vl" "0 \<le> toc_growth ?node"
    "0 \<le> ?idx" "?idx \<le> n_records ?node"
    "56 + (n_records ?node + 1) * toc_entry_size ?node \<le> n_key ?node + toc_growth ?node"
    "0 \<le> val_written val vl" "val_written val vl \<le> vl"
    "toc_full ?node \<Longrightarrow> toc_growth ?node = toc_inc ?node"
    "\<not> toc_full ?node \<Longrightarrow> toc_growth ?node = 0"
    "56 + n_records ?node * toc_entry_size ?node \<le> n_key ?node"
    using k56 lay g a A'
    by (simp_all add: toc_entry_at_def toc_growth_def val_written_def layout_defs split: option.splits)
  have fx: "n_has_fixed_kv_size ?node \<Longrightarrow> toc_entry_size ?node = 4"
    "\<not> n_has_fixed_kv_size ?node \<Longrightarrow> toc_entry_size ?node = 8"
    by (simp_all add: toc_entry_size_def layout_defs)
  have shift: "get_bytes (toc_entry_at ?node (?idx + 1) + c) n (b_data node5) =
       get_bytes (toc_entry_at ?node ?idx + c) n (b_data ?node)"
    if c: "0 \<le> c" "0 \<le> n" "c + n \<le> (n_records ?node - ?idx) * toc_entry_size ?node" for c n
  proof -
    have "get_bytes (toc_entry_at ?node (?idx + 1) + c) n (b_data node5) =
        get_bytes (toc_entry_at ?node (?idx + 1) + c) n raw2"
      using tes ar c
      by (intro untouched_get [OF U25]) (auto simp: toc_entry_at_def info_at_def layout_defs)
    also have "\<dots> = get_bytes (toc_entry_at ?node ?idx + c) n (b_data node1)"
      using insert_toc_entry_shift [OF b, of c n] c ar A' by (simp add: te1)
    also have "\<dots> = get_bytes (toc_entry_at ?node ?idx + c) n (b_data ?node)"
      using tes ar c
      by (intro untouched_get [OF UA]) (auto simp: toc_entry_at_def layout_defs)
    finally show ?thesis .
  qed
  note B = insert_toc_entry_slot [OF b ar(8), unfolded te1 A']
  have slot: "rd_le16 (toc_entry_at ?node ?idx + c) (b_data node5) =
      rd_le16 (toc_entry_at ?node ?idx + c) raw2"
    if "0 \<le> c" "c + 2 \<le> toc_entry_size ?node" for c
    using tes ar that
    by (intro untouched_rd(1) [OF U25]) (auto simp: toc_entry_at_def info_at_def layout_defs)
  have keyb: "get_bytes (n_free ?node + toc_growth ?node) kl (b_data node5) = take (nat kl) key"
  proof -
    have "get_bytes (n_free ?node + toc_growth ?node) kl (b_data node5) =
        get_bytes (n_free ?node + toc_growth ?node) kl (b_data node3)"
      using ar by (intro untouched_get [OF U35]) (auto simp: info_at_def layout_defs)
    then show ?thesis using C(9) A' by simp
  qed
  have valb: "get_bytes (n_data ?node - vl) vl (b_data node5) = take (nat vl) v"
    if v: "val = Some v" for v
  proof -
    have "get_bytes (n_data ?node - vl) vl (b_data node5) =
        get_bytes (n_data ?node - vl) vl (b_data node4)"
      using ar by (intro untouched_get [OF U45]) (auto simp: info_at_def layout_defs)
    then show ?thesis using D(9) [OF v] C' by simp
  qed
  have moved: "get_bytes (n_key ?node + toc_growth ?node) (n_free ?node - n_key ?node) (b_data node5) =
     get_bytes (n_key ?node) (n_free ?node - n_key ?node) (b_data ?node)"
  proof -
    have "get_bytes (n_key ?node + toc_growth ?node) (n_free ?node - n_key ?node) (b_data node5) =
        get_bytes (n_key ?node + toc_growth ?node) (n_free ?node - n_key ?node) (b_data node1)"
      using tes ar
      by (intro untouched_get [OF untouched_trans [OF UB untouched_trans [OF C(8) [simplified] U35]]])
        (auto simp: toc_entry_at_def info_at_def layout_defs A')
    then show ?thesis using A(9) A' by simp
  qed
  note U04 = untouched_trans [OF UA untouched_trans [OF UB untouched_trans [OF UC UD]]]
  note F35 = untouched_trans [OF D(8) update_info_untouched [of sb node4 kl vl, folded node5_def]]
  note F15 = untouched_trans [OF UB untouched_trans [OF C(8) [simplified] F35]]
  have hdr1: "rd_le16 table_space_len_at (b_data node5) =
       rd_le16 table_space_len_at (b_data ?node) + word_of_int (toc_growth ?node)"
  proof -
    have "rd_le16 table_space_len_at (b_data node5) = rd_le16 table_space_len_at (b_data node1)"
      using tes ar
      by (intro untouched_rd(1) [OF F15])
        (auto simp: toc_entry_at_def info_at_def layout_defs A' C')
    then show ?thesis using A(10) by (simp add: toc_growth_def)
  qed
  have hdr2: "rd_le16 free_space_off_at (b_data node5) =
       rd_le16 free_space_off_at (b_data ?node) + word_of_int kl"
  proof -
    have "rd_le16 free_space_off_at (b_data node5) = rd_le16 free_space_off_at (b_data node3)"
      using ar by (intro untouched_rd(1) [OF F35]) (auto simp: info_at_def layout_defs C')
    also have "\<dots> = rd_le16 free_space_off_at raw2 + word_of_int kl"
      using C(10) by simp
    also have "rd_le16 free_space_off_at raw2 = rd_le16 free_space_off_at (b_data node1)"
      using tes ar by (intro untouched_rd(1) [OF UB]) (auto simp: toc_entry_at_def layout_defs)
    also have "\<dots> = rd_le16 free_space_off_at (b_data ?node)"
      using ar toc_inc_pos [of ?node]
      by (intro untouched_rd(1) [OF A(8)]) (auto simp: layout_defs)
    finally show ?thesis .
  qed
  have hdr3: "rd_le16 free_space_len_at (b_data node5) =
       rd_le16 free_space_len_at (b_data ?node) - word_of_int (toc_growth ?node)
         - word_of_int kl - word_of_int (val_written val vl)"
  proof -
    have "rd_le16 free_space_len_at (b_data node5) = rd_le16 free_space_len_at (b_data node4)"
      unfolding node5_def using ar lay
      by (intro untouched_rd(1) [OF update_info_untouched]) (auto simp: info_at_def layout_defs)
    also have "\<dots> = rd_le16 free_space_len_at (b_data node3) - word_of_int (val_written val vl)"
      using D(11) by (simp add: val_written_def split: option.splits)
    also have "rd_le16 free_space_len_at (b_data node3) =
        rd_le16 free_space_len_at raw2 - word_of_int kl"
      using C(11) by simp
    also have "rd_le16 free_space_len_at raw2 = rd_le16 free_space_len_at (b_data node1)"
      using tes ar by (intro untouched_rd(1) [OF UB]) (auto simp: toc_entry_at_def layout_defs)
    also have "\<dots> = rd_le16 free_space_len_at (b_data ?node) - word_of_int (toc_growth ?node)"
      using A(11) by (simp add: toc_growth_def)
    finally show ?thesis .
  qed
  have bok4: "buffer_ok sb node4"
    using D' lay by (simp add: buffer_ok_def layout_defs)
  note E = update_info_counters [OF bok4, of kl vl, folded node5_def]
  have info4: "rd_le64 (info_at sb + bt_key_count_in) (b_data node4) =
      rd_le64 (info_at sb + bt_key_count_in) (b_data ?node)"
    "rd_le32 (info_at sb + bt_longest_key_in) (b_data node4) =
      rd_le32 (info_at sb + bt_longest_key_in) (b_data ?node)"
    "rd_le32 (info_at sb + bt_longest_val_in) (b_data node4) =
      rd_le32 (info_at sb + bt_longest_val_in) (b_data ?node)"
    using tes ar lay
    by ((intro untouched_rd [OF U04]), (auto simp: toc_entry_at_def info_at_def layout_defs)[2])+
  have xid: "rd_le64 o_xid_at (b_data node5) = rd_le64 o_xid_at (b_data ?node)"
    using tes ar lay
    by (intro untouched_rd(3) [OF U05]) (auto simp: toc_entry_at_def info_at_def layout_defs)
  have wf5: "root_leaf_node sb node5"
    using D' A' ar lay xid untouched_length [OF U05]
    by (auto simp: root_leaf_node_def buffer_ok_def node5_def update_info_fields
        toc_entry_size_def layout_defs)
  show ?thesis
  proof (rule that [of node5])
    show "rd_le16 table_space_len_at (b_data node5) =
       rd_le16 table_space_len_at (b_data ?node) + word_of_int (toc_growth ?node)"
      by (rule hdr1)
    show "rd_le16 free_space_off_at (b_data node5) =
       rd_le16 free_space_off_at (b_data ?node) + word_of_int kl"
      by (rule hdr2)
    show "rd_le16 free_space_len_at (b_data node5) =
       rd_le16 free_space_len_at (b_data ?node) - word_of_int (toc_growth ?node)
         - word_of_int kl - word_of_int (val_written val vl)"
      by (rule hdr3)
    show "rd_le64 (info_at sb + bt_key_count_in) (b_data node5) =
       rd_le64 (info_at sb + bt_key_count_in) (b_data ?node) + 1"
      "rd_le32 btn_nkeys_at (b_data node5) = word_of_int (n_records ?node + 1)"
      "rd_le32 (info_at sb + bt_longest_key_in) (b_data node5) =
       max (rd_le32 (info_at sb + bt_longest_key_in) (b_data ?node)) (word_of_int kl)"
      "rd_le32 (info_at sb + bt_longest_val_in) (b_data node5) =
       max (rd_le32 (info_at sb + bt_longest_val_in) (b_data ?node)) (word_of_int vl)"
      using E info4 D' by simp_all
    show "root_leaf_node sb node5" by (rule wf5)
    show "\<And>c n. 0 \<le> c \<Longrightarrow> 0 \<le> n \<Longrightarrow>
       c + n \<le> (n_records ?node - ?idx) * toc_entry_size ?node \<Longrightarrow>
       get_bytes (toc_entry_at ?node (q_index query + 2) + c) n (b_data node5) =
       get_bytes (toc_entry_at ?node ?idx + c) n (b_data ?node)"
      using shift by (simp add: add.assoc)
    show "rd_le16 (toc_entry_at ?node ?idx) (b_data node5) =
       word_of_int (n_free ?node - n_key ?node)"
      using slot [of 0] B(1) tes by auto
    show "n_has_fixed_kv_size ?node \<Longrightarrow>
       rd_le16 (toc_entry_at ?node ?idx + 2) (b_data node5) =
       (case val of None \<Rightarrow> APFS_BTOFF_INVALID | Some v \<Rightarrow> word_of_int vl)"
      using slot [of 2] B(2) fx by simp
    show "\<not> n_has_fixed_kv_size ?node \<Longrightarrow>
       rd_le16 (toc_entry_at ?node ?idx + 2) (b_data node5) = word_of_int kl \<and>
       rd_le16 (toc_entry_at ?node ?idx + 4) (b_data node5) =
         word_of_int (s_blocksize sb - n_data ?node - btree_info_size + vl) \<and>
       rd_le16 (toc_entry_at ?node ?idx + 6) (b_data node5) = word_of_int vl"
      using slot [of 2] slot [of 4] slot [of 6] B(3-5) fx by simp
    show "get_bytes (n_free ?node + toc_growth ?node) kl (b_data node5) = take (nat kl) key"
      by (rule keyb)
    show "\<And>v. val = Some v \<Longrightarrow>
       get_bytes (n_data ?node - vl) vl (b_data node5) = take (nat vl) v"
      by (rule valb)
    show "get_bytes (n_key ?node + toc_growth ?node) (n_free ?node - n_key ?node) (b_data node5) =
     get_bytes (n_key ?node) (n_free ?node - n_key ?node) (b_data ?node)"
      by (rule moved)
    show "apfs_btree_insert sb query key kl val vl =
       Success (query\<lparr>q_node := node5, q_index := ?idx\<rparr>)"
      using r by (simp add: node5_def)
    show "n_records node5 = n_records ?node + 1"
      "n_key node5 = n_key ?node + toc_growth ?node"
      "n_free node5 = n_free ?node + toc_growth ?node + kl"
      "n_data node5 = n_data ?node - val_written val vl"
      "n_is_root node5" "n_is_leaf node5"
      "n_has_fixed_kv_size node5 = n_has_fixed_kv_size ?node"
      "b_dirty node5"
      using D' A' by (simp_all add: node5_def update_info_fields)
    show "untouched [(o_cksum_at, o_cksum_at + 8), (btn_nkeys_at, btn_nkeys_at + 4),
        (table_space_len_at, free_space_len_at + 2),
        (toc_entry_at ?node ?idx, toc_entry_at ?node (n_records ?node + 1)),
        (if toc_full ?node then n_key ?node + toc_inc ?node else n_free ?node,
         n_free ?node + toc_growth ?node + kl),
        (n_data ?node - val_written val vl, n_data ?node),
        (info_at sb + bt_longest_key_in, info_at sb + bt_key_count_in + 8)]
       (b_data ?node) (b_data node5)"
      by (rule U05)
  qed
qed


lemma insert_arith:
  assumes wf: "root_leaf_node sb (q_node query)"
    and args: "insert_args_ok query key kl val vl"
    and fit1: "n_free (q_node query) + kl + vl \<le> n_data (q_node query)"
    and fit2: "toc_full (q_node query) \<longrightarrow>
        n_free (q_node query) + toc_inc (q_node query) + kl + vl \<le> n_data (q_node query)"
  shows "56 \<le> n_key (q_node query)" "n_key (q_node query) \<le> n_free (q_node query)"
    "n_free (q_node query) + toc_growth (q_node query) + kl + vl \<le> n_data (q_node query)"
    "n_data (q_node query) \<le> s_blocksize sb - 40" "0 \<le> kl" "0 \<le> vl"
    "0 \<le> toc_growth (q_node query)"
    "0 \<le> q_index query + 1" "q_index query + 1 \<le> n_records (q_node query)"
    "56 + (n_records (q_node query) + 1) * toc_entry_size (q_node query)
       \<le> n_key (q_node query) + toc_growth (q_node query)"
    "0 \<le> val_written val vl" "val_written val vl \<le> vl"
    "toc_full (q_node query) \<Longrightarrow> toc_growth (q_node query) = toc_inc (q_node query)"
    "\<not> toc_full (q_node query) \<Longrightarrow> toc_growth (q_node query) = 0"
    "56 + n_records (q_node query) * toc_entry_size (q_node query) \<le> n_key (q_node query)"
    "int (length (b_data (q_node query))) = s_blocksize sb"
proof -
  let ?node = "q_node query"
  have tes: "toc_entry_size ?node = 4 \<or> toc_entry_size ?node = 8"
    by (rule toc_entry_size_cases)
  have lay: "int (length (b_data ?node)) = s_blocksize sb" "0 \<le> n_records ?node"
    "56 + n_records ?node * toc_entry_size ?node \<le> n_key ?node" "n_key ?node \<le> n_free ?node"
    "n_data ?node \<le> s_blocksize sb - 40"
    using wf by (simp_all add: root_leaf_node_def buffer_ok_def layout_defs)
  have a: "- 1 \<le> q_index query" "q_index query < n_records ?node" "0 \<le> kl" "0 \<le> vl"
    using args by (simp_all add: insert_args_ok_def)
  show "56 \<le> n_key ?node" using lay tes by auto
  show "n_key ?node \<le> n_free ?node" "n_data ?node \<le> s_blocksize sb - 40"
    "0 \<le> kl" "0 \<le> vl" "0 \<le> q_index query + 1" "q_index query + 1 \<le> n_records ?node"
    "56 + n_records ?node * toc_entry_size ?node \<le> n_key ?node"
    "int (length (b_data ?node)) = s_blocksize sb"
    using lay a by simp_all
  show "0 \<le> val_written val vl" "val_written val vl \<le> vl"
    using a by (simp_all add: val_written_def split: option.splits)
  show "toc_full ?node \<Longrightarrow> toc_growth ?node = toc_inc ?node"
    "\<not> toc_full ?node \<Longrightarrow> toc_growth ?node = 0"
    by (simp_all add: toc_growth_def)
  show "0 \<le> toc_growth ?node"
    using toc_inc_pos [of ?node] by (simp add: toc_growth_def)
  show "n_free ?node + toc_growth ?node + kl + vl \<le> n_data ?node"
    using fit1 fit2 by (simp add: toc_growth_def)
  show "56 + (n_records ?node + 1) * toc_entry_size ?node \<le> n_key ?node + toc_growth ?node"
    using tes lay
    by (auto simp: toc_growth_def toc_full_def toc_inc_def layout_defs)
qed



subsection \<open>The remove as a whole\<close>

lemma remove_effects:
  assumes wf: "root_leaf_node sb (q_node query)"
    and idx: "0 \<le> q_index query" "q_index query < n_records (q_node query)"
  obtains (eff) node' where
    "apfs_btree_remove sb query = Success (query\<lparr>q_node := node'\<rparr>)"
    "n_records node' = n_records (q_node query) - 1"
    "n_key node' = n_key (q_node query)"
    "n_free node' = n_free (q_node query)"
    "n_data node' = n_data (q_node query)"
    "n_has_fixed_kv_size node' = n_has_fixed_kv_size (q_node query)"
    "b_dirty node'"
    "untouched [(o_cksum_at, o_cksum_at + 8), (val_free_list_len_at, val_free_list_len_at + 2),
        (key_free_list_len_at, key_free_list_len_at + 2), (btn_nkeys_at, btn_nkeys_at + 4),
        (info_at sb + bt_key_count_in, info_at sb + bt_key_count_in + 8),
        (toc_entry_at (q_node query) (q_index query),
         toc_entry_at (q_node query) (n_records (q_node query) - 1))]
       (b_data (q_node query)) (b_data node')"
    "\<And>c n. 0 \<le> c \<Longrightarrow> 0 \<le> n \<Longrightarrow>
       c + n \<le> (n_records (q_node query) - q_index query - 1) * toc_entry_size (q_node query) \<Longrightarrow>
       get_bytes (toc_entry_at (q_node query) (q_index query) + c) n (b_data node') =
       get_bytes (toc_entry_at (q_node query) (q_index query + 1) + c) n (b_data (q_node query))"
    "rd_le64 (info_at sb + bt_key_count_in) (b_data node') =
       rd_le64 (info_at sb + bt_key_count_in) (b_data (q_node query)) - 1"
    "rd_le32 btn_nkeys_at (b_data node') = word_of_int (n_records (q_node query) - 1)"
    "rd_le16 key_free_list_len_at (b_data node') =
       rd_le16 key_free_list_len_at (b_data (q_node query)) + word_of_int (q_key_len query)"
    "rd_le16 val_free_list_len_at (b_data node') =
       rd_le16 val_free_list_len_at (b_data (q_node query)) + word_of_int (q_len query)"
    "root_leaf_node sb node'"
proof -
  let ?node = "q_node query" and ?idx = "q_index query"
  let ?tes = "toc_entry_size ?node" and ?te = "toc_entry_at ?node ?idx"
  let ?m = "(n_records ?node - ?idx - 1) * ?tes"
  have tes: "?tes = 4 \<or> ?tes = 8" by (rule toc_entry_size_cases)
  have lay: "int (length (b_data ?node)) = s_blocksize sb" "0 \<le> n_records ?node"
    "56 + n_records ?node * ?tes \<le> n_key ?node" "n_key ?node \<le> n_free ?node"
    "n_free ?node \<le> n_data ?node"
    "n_data ?node \<le> s_blocksize sb - 40" "n_is_root ?node" "n_is_leaf ?node"
    "s_xid sb = rd_le64 o_xid_at (b_data ?node)" "buffer_ok sb ?node" "96 \<le> s_blocksize sb"
    using wf by (simp_all add: root_leaf_node_def buffer_ok_def layout_defs)
  have m: "0 \<le> ?m" using idx tes by auto
  have e: "?te + ?tes = toc_entry_at ?node (?idx + 1)"
    "?te + ?m = toc_entry_at ?node (n_records ?node - 1)"
    "?te + ?tes + ?m = toc_entry_at ?node (n_records ?node)"
    by (simp_all add: toc_entry_at_def algebra_simps)
  have p: "56 \<le> ?te" "toc_entry_at ?node (n_records ?node) \<le> s_blocksize sb - 40"
    using idx tes lay by (auto simp: toc_entry_at_def layout_defs)
  have "in_block ?te ?m (b_data ?node)" "in_block (?te + ?tes) ?m (b_data ?node)"
    using m e p lay tes by (auto simp: in_block_def)
  then obtain raw1 where mm: "memmove_blk ?te (?te + ?tes) ?m (b_data ?node) = Some raw1"
    by (simp add: memmove_blk_def)
  define raw2 where "raw2 = le64_add_cpu (info_at sb + bt_key_count_in) (- 1) raw1"
  define raw3 where "raw3 = wr_le32 btn_nkeys_at (word_of_int (n_records ?node - 1)) raw2"
  define raw4 where "raw4 = le16_add_cpu key_free_list_len_at (q_key_len query) raw3"
  define raw5 where "raw5 = le16_add_cpu val_free_list_len_at (q_len query) raw4"
  define node' where "node' = ?node\<lparr>n_records := n_records ?node - 1,
      b_data := apfs_obj_set_csum sb raw5, b_dirty := True\<rparr>"
  have r: "apfs_btree_remove sb query = Success (query\<lparr>q_node := node'\<rparr>)"
    using lay mm
    by (simp add: apfs_btree_remove_def Let_def node'_def raw5_def raw4_def raw3_def raw2_def)
  note u1 = memmove_untouched [OF mm, unfolded e]
  have l1: "length raw1 = length (b_data ?node)" using u1 by (rule untouched_length)
  have U15: "untouched [(o_cksum_at, o_cksum_at + 8), (val_free_list_len_at, val_free_list_len_at + 2),
        (key_free_list_len_at, key_free_list_len_at + 2), (btn_nkeys_at, btn_nkeys_at + 4),
        (info_at sb + bt_key_count_in, info_at sb + bt_key_count_in + 8)] raw1 (b_data node')"
    unfolding node'_def raw5_def raw4_def raw3_def raw2_def
    by (simp, intro untouched_steps untouched_steps2 untouched_refl)
  have U: "untouched [(o_cksum_at, o_cksum_at + 8), (val_free_list_len_at, val_free_list_len_at + 2),
        (key_free_list_len_at, key_free_list_len_at + 2), (btn_nkeys_at, btn_nkeys_at + 4),
        (info_at sb + bt_key_count_in, info_at sb + bt_key_count_in + 8),
        (?te, toc_entry_at ?node (n_records ?node - 1))]
       (b_data ?node) (b_data node')"
    using untouched_trans [OF u1 U15] by (rule untouched_mono) simp
  have shift: "get_bytes (?te + c) n (b_data node') =
       get_bytes (toc_entry_at ?node (?idx + 1) + c) n (b_data ?node)"
    if c: "0 \<le> c" "0 \<le> n" "c + n \<le> ?m" for c n
  proof -
    have "get_bytes (?te + c) n (b_data node') = get_bytes (?te + c) n raw1"
      using tes p c e lay idx
      by (intro untouched_get [OF U15]) (auto simp: info_at_def layout_defs toc_entry_at_def)
    also have "\<dots> = get_bytes (?te + ?tes + c) n (b_data ?node)"
      using c by (intro memmove_content [OF mm]) auto
    finally show ?thesis by (simp add: e)
  qed
  have cnt: "rd_le64 (info_at sb + bt_key_count_in) (b_data node') =
       rd_le64 (info_at sb + bt_key_count_in) (b_data ?node) - 1"
    "rd_le32 btn_nkeys_at (b_data node') = word_of_int (n_records ?node - 1)"
    "rd_le16 key_free_list_len_at (b_data node') =
       rd_le16 key_free_list_len_at (b_data ?node) + word_of_int (q_key_len query)"
    "rd_le16 val_free_list_len_at (b_data node') =
       rd_le16 val_free_list_len_at (b_data ?node) + word_of_int (q_len query)"
  proof -
    have i: "rd_le64 (info_at sb + bt_key_count_in) raw1 =
        rd_le64 (info_at sb + bt_key_count_in) (b_data ?node)"
      "rd_le16 key_free_list_len_at raw1 = rd_le16 key_free_list_len_at (b_data ?node)"
      "rd_le16 val_free_list_len_at raw1 = rd_le16 val_free_list_len_at (b_data ?node)"
      using tes p e lay idx
      by ((intro untouched_rd [OF u1]), (auto simp: info_at_def layout_defs toc_entry_at_def)[2])+
    show "rd_le64 (info_at sb + bt_key_count_in) (b_data node') =
       rd_le64 (info_at sb + bt_key_count_in) (b_data ?node) - 1"
      "rd_le32 btn_nkeys_at (b_data node') = word_of_int (n_records ?node - 1)"
      "rd_le16 key_free_list_len_at (b_data node') =
       rd_le16 key_free_list_len_at (b_data ?node) + word_of_int (q_key_len query)"
      "rd_le16 val_free_list_len_at (b_data node') =
       rd_le16 val_free_list_len_at (b_data ?node) + word_of_int (q_len query)"
      using i [symmetric] l1 lay
      by (simp_all add: node'_def raw5_def raw4_def raw3_def raw2_def apfs_obj_set_csum_def
          wr_defs rd_put info_at_def layout_defs)
  qed
  have xid: "rd_le64 o_xid_at (b_data node') = rd_le64 o_xid_at (b_data ?node)"
    using tes p e lay idx
    by (intro untouched_rd(3) [OF U]) (auto simp: toc_entry_at_def info_at_def layout_defs)
  have wf': "root_leaf_node sb node'"
    using lay xid untouched_length [OF U] idx tes
    by (auto simp: root_leaf_node_def buffer_ok_def node'_def toc_entry_size_def layout_defs)
  show ?thesis
  proof (rule that [of node'])
    show "apfs_btree_remove sb query = Success (query\<lparr>q_node := node'\<rparr>)" by (rule r)
    show "n_records node' = n_records ?node - 1" "n_key node' = n_key ?node"
      "n_free node' = n_free ?node" "n_data node' = n_data ?node"
      "n_has_fixed_kv_size node' = n_has_fixed_kv_size ?node" "b_dirty node'"
      by (simp_all add: node'_def)
    show "untouched [(o_cksum_at, o_cksum_at + 8), (val_free_list_len_at, val_free_list_len_at + 2),
        (key_free_list_len_at, key_free_list_len_at + 2), (btn_nkeys_at, btn_nkeys_at + 4),
        (info_at sb + bt_key_count_in, info_at sb + bt_key_count_in + 8),
        (?te, toc_entry_at ?node (n_records ?node - 1))]
       (b_data ?node) (b_data node')"
      by (rule U)
    show "\<And>c n. 0 \<le> c \<Longrightarrow> 0 \<le> n \<Longrightarrow> c + n \<le> ?m \<Longrightarrow>
       get_bytes (?te + c) n (b_data node') =
       get_bytes (toc_entry_at ?node (?idx + 1) + c) n (b_data ?node)"
      by (rule shift)
    show "rd_le64 (info_at sb + bt_key_count_in) (b_data node') =
       rd_le64 (info_at sb + bt_key_count_in) (b_data ?node) - 1"
      "rd_le32 btn_nkeys_at (b_data node') = word_of_int (n_records ?node - 1)"
      "rd_le16 key_free_list_len_at (b_data node') =
       rd_le16 key_free_list_len_at (b_data ?node) + word_of_int (q_key_len query)"
      "rd_le16 val_free_list_len_at (b_data node') =
       rd_le16 val_free_list_len_at (b_data ?node) + word_of_int (q_len query)"
      by (rule cnt)+
    show "root_leaf_node sb node'" by (rule wf')
  qed
qed


section \<open>The node as its readers see it\<close>

text \<open>
  The fields of the block that the claims speak of: the bytes of an entry of the table of
  contents and its 16-bit fields (\<open>k\<close>, \<open>v\<close> of \<open>struct apfs_kvoff\<close>; \<open>k.off\<close>,
  \<open>k.len\<close>, \<open>v.off\<close>, \<open>v.len\<close> of \<open>struct apfs_kvloc\<close>), the counters of the node
  header and of the tree info.
\<close>

definition toc_entry :: "apfs_node \<Rightarrow> int \<Rightarrow> u8 list" where
  "toc_entry node i = get_bytes (toc_entry_at node i) (toc_entry_size node) (b_data node)"

definition kvoff_k :: "apfs_node \<Rightarrow> int \<Rightarrow> u16" where
  "kvoff_k node i = rd_le16 (toc_entry_at node i) (b_data node)"

definition kvoff_v :: "apfs_node \<Rightarrow> int \<Rightarrow> u16" where
  "kvoff_v node i = rd_le16 (toc_entry_at node i + 2) (b_data node)"

definition kvloc_k_off :: "apfs_node \<Rightarrow> int \<Rightarrow> u16" where
  "kvloc_k_off node i = rd_le16 (toc_entry_at node i) (b_data node)"

definition kvloc_k_len :: "apfs_node \<Rightarrow> int \<Rightarrow> u16" where
  "kvloc_k_len node i = rd_le16 (toc_entry_at node i + 2) (b_data node)"

definition kvloc_v_off :: "apfs_node \<Rightarrow> int \<Rightarrow> u16" where
  "kvloc_v_off node i = rd_le16 (toc_entry_at node i + 4) (b_data node)"

definition kvloc_v_len :: "apfs_node \<Rightarrow> int \<Rightarrow> u16" where
  "kvloc_v_len node i = rd_le16 (toc_entry_at node i + 6) (b_data node)"

definition btn_nkeys :: "apfs_node \<Rightarrow> u32" where
  "btn_nkeys node = rd_le32 btn_nkeys_at (b_data node)"

definition btn_table_space_len :: "apfs_node \<Rightarrow> u16" where
  "btn_table_space_len node = rd_le16 table_space_len_at (b_data node)"

definition btn_free_space_off :: "apfs_node \<Rightarrow> u16" where
  "btn_free_space_off node = rd_le16 free_space_off_at (b_data node)"

definition btn_free_space_len :: "apfs_node \<Rightarrow> u16" where
  "btn_free_space_len node = rd_le16 free_space_len_at (b_data node)"

definition btn_key_free_list_off :: "apfs_node \<Rightarrow> u16" where
  "btn_key_free_list_off node = rd_le16 key_free_list_off_at (b_data node)"

definition btn_val_free_list_off :: "apfs_node \<Rightarrow> u16" where
  "btn_val_free_list_off node = rd_le16 val_free_list_off_at (b_data node)"

definition btn_key_free_list_len :: "apfs_node \<Rightarrow> u16" where
  "btn_key_free_list_len node = rd_le16 key_free_list_len_at (b_data node)"

definition btn_val_free_list_len :: "apfs_node \<Rightarrow> u16" where
  "btn_val_free_list_len node = rd_le16 val_free_list_len_at (b_data node)"

definition bt_key_count :: "super_block \<Rightarrow> apfs_node \<Rightarrow> u64" where
  "bt_key_count sb node = rd_le64 (info_at sb + bt_key_count_in) (b_data node)"

definition bt_longest_key :: "super_block \<Rightarrow> apfs_node \<Rightarrow> u32" where
  "bt_longest_key sb node = rd_le32 (info_at sb + bt_longest_key_in) (b_data node)"

definition bt_longest_val :: "super_block \<Rightarrow> apfs_node \<Rightarrow> u32" where
  "bt_longest_val sb node = rd_le32 (info_at sb + bt_longest_val_in) (b_data node)"

lemmas view_defs = toc_entry_def kvoff_k_def kvoff_v_def kvloc_k_off_def kvloc_k_len_def
  kvloc_v_off_def kvloc_v_len_def btn_nkeys_def btn_table_space_len_def btn_free_space_off_def
  btn_free_space_len_def btn_key_free_list_len_def btn_val_free_list_len_def bt_key_count_def
  btn_key_free_list_off_def btn_val_free_list_off_def
  bt_longest_key_def bt_longest_val_def

section \<open>An empty root-and-leaf node\<close>

text \<open>
  A 4 KiB block of transaction 5 holding an empty fixed-size root-and-leaf node whose table
  of contents has no room yet: the key area starts right after the node header.
\<close>

definition empty_sb :: super_block where
  "empty_sb = \<lparr>s_blocksize = 4096, s_xid = 5, s_fletcher = (\<lambda>blk. 0)\<rparr>"

definition empty_block :: "u8 list" where
  "empty_block = wr_le64 o_xid_at 5 (replicate 4096 0)"

definition empty_node :: apfs_node where
  "empty_node = \<lparr>n_is_root = True, n_is_leaf = True, n_has_fixed_kv_size = True,
     n_records = 0, n_key = 56, n_free = 56, n_data = 4056, n_block_nr = 1, n_oid = 1,
     b_data = empty_block, b_dirty = False, b_csum = False\<rparr>"

definition empty_query :: apfs_query where
  "empty_query = \<lparr>q_node = empty_node, q_key = None, q_flags = {}, q_index = - 1,
     q_key_off = 0, q_key_len = 0, q_off = 0, q_len = 0, q_depth = 0\<rparr>"

lemma empty_node_ok: "root_leaf_node empty_sb empty_node"
  by (simp add: root_leaf_node_def buffer_ok_def empty_sb_def empty_node_def empty_block_def
      toc_entry_size_def rd_wr_same layout_defs)

text \<open>The same block with one record of 8 bytes of key and 8 bytes of value, and room
  for eight entries in the table of contents.\<close>

definition one_record_node :: apfs_node where
  "one_record_node = empty_node\<lparr>n_records := 1, n_key := 88, n_free := 96, n_data := 4048\<rparr>"

definition one_record_query :: apfs_query where
  "one_record_query = empty_query\<lparr>q_node := one_record_node\<rparr>"

lemma one_record_node_ok: "root_leaf_node empty_sb one_record_node"
  using empty_node_ok
  by (simp add: root_leaf_node_def buffer_ok_def one_record_node_def empty_node_def
      toc_entry_size_def layout_defs)

subsection \<open>Nine inserts into the empty node\<close>

text \<open>
  Records with increasing keys are inserted one after the other: each goes after the
  record inserted before it, which is where the query that carried the last insert
  points.
\<close>

fun insert_all :: "super_block \<Rightarrow> apfs_query \<Rightarrow> (u8 list \<times> u8 list) list \<Rightarrow> apfs_query outcome" where
  "insert_all sb query [] = Success query"
| "insert_all sb query ((k, v) # kvs) =
     (case apfs_btree_insert sb query k (int (length k)) (Some v) (int (length v)) of
        Success query' \<Rightarrow> insert_all sb query' kvs
      | Failure e query' \<Rightarrow> Failure e query'
      | Undefined \<Rightarrow> Undefined)"

definition record_no :: "nat \<Rightarrow> u8 list \<times> u8 list" where
  "record_no i = (cpu_to_le64 (of_nat i), cpu_to_le64 (of_nat (100 + i)))"

text \<open>
  The fixed-size node of a 4 KiB block after \<open>n\<close> records of 8 bytes of key and 8 bytes
  of value, \<open>n\<close> at most 9, the query at the last of them.
\<close>

definition filled :: "super_block \<Rightarrow> apfs_query \<Rightarrow> int \<Rightarrow> bool" where
  "filled sb query n \<longleftrightarrow>
     root_leaf_node sb (q_node query) \<and> n_has_fixed_kv_size (q_node query) \<and>
     s_blocksize sb = 4096 \<and>
     n_records (q_node query) = n \<and> q_index query = n - 1 \<and>
     n_key (q_node query) = (if n = 0 then 56 else if n \<le> 8 then 88 else 120) \<and>
     n_free (q_node query) = n_key (q_node query) + 8 * n \<and>
     n_data (q_node query) = 4056 - 8 * n \<and>
     bt_key_count sb (q_node query) = word_of_int n"

lemma filled_step:
  assumes f: "filled sb query n" and n: "0 \<le> n" "n < 9"
    and len: "length k = 8" "length v = 8"
  shows "\<exists>query'. apfs_btree_insert sb query k 8 (Some v) 8 = Success query' \<and>
           filled sb query' (n + 1)"
proof -
  let ?node = "q_node query"
  have wf: "root_leaf_node sb ?node" and fx: "n_has_fixed_kv_size ?node"
    and v: "s_blocksize sb = 4096" "n_records ?node = n" "q_index query = n - 1"
      "n_key ?node = (if n = 0 then 56 else if n \<le> 8 then 88 else 120)"
      "n_free ?node = n_key ?node + 8 * n" "n_data ?node = 4056 - 8 * n"
      "bt_key_count sb ?node = word_of_int n"
    using f by (simp_all add: filled_def)
  have tes: "toc_entry_size ?node = 4" using fx by (simp add: toc_entry_size_def layout_defs)
  have inc: "toc_inc ?node = 32" by (simp add: toc_inc_def tes layout_defs)
  have full: "toc_full ?node \<longleftrightarrow> n = 0 \<or> n = 8"
    using n by (auto simp: toc_full_def tes v layout_defs)
  have g: "toc_growth ?node = (if n = 0 \<or> n = 8 then 32 else 0)"
    by (simp add: toc_growth_def full inc)
  have args: "insert_args_ok query k 8 (Some v) 8"
    using n len by (simp add: insert_args_ok_def v)
  have fit1: "n_free ?node + 8 + 8 \<le> n_data ?node"
    using n by (simp add: v)
  have fit2: "toc_full ?node \<longrightarrow> n_free ?node + toc_inc ?node + 8 + 8 \<le> n_data ?node"
    using n by (simp add: v inc)
  from wf args fit1 fit2 show ?thesis
  proof (cases rule: insert_effects)
    case (eff node')
    have "filled sb (query\<lparr>q_node := node', q_index := q_index query + 1\<rparr>) (n + 1)"
      using eff(2,3,4,5,8,21,25) n fx v(7) [unfolded bt_key_count_def]
      by (auto simp: filled_def v(1-6) g val_written_def bt_key_count_def)
    with eff(1) show ?thesis by blast
  qed
qed

lemma filled_insert_all:
  assumes "filled sb query n" "0 \<le> n" "n + int (length kvs) \<le> 9"
    and "\<forall>kv \<in> set kvs. length (fst kv) = 8 \<and> length (snd kv) = 8"
  shows "\<exists>query'. insert_all sb query kvs = Success query' \<and>
           filled sb query' (n + int (length kvs))"
  using assms
proof (induction kvs arbitrary: query n)
  case Nil
  then show ?case by simp
next
  case (Cons kv kvs)
  obtain k v where kv: "kv = (k, v)" by (cases kv)
  with Cons.prems have len: "length k = 8" "length v = 8" and n: "n < 9" by auto
  from filled_step [OF Cons.prems(1,2) n len] obtain query1 where
    s: "apfs_btree_insert sb query k 8 (Some v) 8 = Success query1"
    and f1: "filled sb query1 (n + 1)"
    by blast
  have e: "n + 1 + int (length kvs) = n + int (length (kv # kvs))" by simp
  have "\<exists>query'. insert_all sb query1 kvs = Success query' \<and>
           filled sb query' (n + 1 + int (length kvs))"
    using Cons.prems by (intro Cons.IH [OF f1]) auto
  then show ?case
    unfolding e using s len by (simp add: kv)
qed

lemma dec_le_replicate_0 [simp]: "dec_le (replicate n 0) = 0"
  by (induction n) auto

lemma empty_query_filled: "filled empty_sb empty_query 0"
proof -
  have "rd_le64 (info_at empty_sb + bt_key_count_in) empty_block =
      rd_le64 (info_at empty_sb + bt_key_count_in) (replicate 4096 0)"
    unfolding empty_block_def wr_le64_def
    by (rule rd_le64_put_disjoint) (simp_all add: info_at_def empty_sb_def layout_defs)
  also have "\<dots> = 0"
    by (simp add: rd_le64_def get_bytes_def info_at_def empty_sb_def layout_defs)
  finally have "bt_key_count empty_sb empty_node = 0"
    by (simp add: bt_key_count_def empty_node_def)
  then show ?thesis
    using empty_node_ok
    by (simp add: filled_def empty_query_def empty_node_def empty_sb_def)
qed


text \<open>The same block with two records, and the query at the first of them.\<close>

definition two_record_node :: apfs_node where
  "two_record_node = empty_node\<lparr>n_records := 2, n_key := 88, n_free := 104, n_data := 4040\<rparr>"

definition two_record_query :: apfs_query where
  "two_record_query = empty_query\<lparr>q_node := two_record_node, q_index := 0,
     q_key_off := 88, q_key_len := 8, q_off := 4048, q_len := 8\<rparr>"

lemma two_record_node_ok: "root_leaf_node empty_sb two_record_node"
  using empty_node_ok
  by (simp add: root_leaf_node_def buffer_ok_def two_record_node_def empty_node_def
      toc_entry_size_def layout_defs)

text \<open>The query that has found the record of \<open>one_record_node\<close>, at slot 0.\<close>

definition found_query :: apfs_query where
  "found_query = one_record_query\<lparr>q_index := 0\<rparr>"

lemma empty_block_zero:
  "rd_le16 56 empty_block = 0" "rd_le16 58 empty_block = 0" "rd_le16 60 empty_block = 0"
  "rd_le16 42 empty_block = 0" "get_bytes 56 4 empty_block = replicate 4 0"
  "length empty_block = 4096"
  by (simp_all add: empty_block_def rd_le16_def get_bytes_def wr_defs put_bytes_def layout_defs)

section \<open>Properties of the insert\<close>

text \<open>
  C10. When \<open>apfs_btree_insert\<close> returns \<open>-ENOSPC\<close> the query and its node, with the
  block, \<open>key\<close>, \<open>free\<close>, \<open>data\<close> and \<open>records\<close>, are as they were before the call:
  both tests come before the first store. The failure is the first test of line 326 or,
  with a full table of contents, the test of line 345.
\<close>

theorem insert_enospc_leaves_node:
  assumes "apfs_btree_insert sb query key key_len val val_len = Failure ENOSPC query'"
  shows "query' = query \<and>
     (n_free (q_node query) + key_len + val_len > n_data (q_node query) \<or>
      toc_full (q_node query) \<and>
      n_free (q_node query) + toc_inc (q_node query) + key_len + val_len > n_data (q_node query))"
proof (cases "n_free (q_node query) + key_len + val_len > n_data (q_node query)")
  case True
  with assms show ?thesis
    by (simp add: apfs_btree_insert_def Let_def split: if_splits)
next
  case False
  with assms obtain node' where
    f: "expand_toc (q_node query) key_len val_len = Failure ENOSPC node'"
    and q: "query' = query\<lparr>q_node := node'\<rparr>"
    by (auto simp: apfs_btree_insert_def Let_def split: if_splits outcome.splits option.splits)
  from expand_toc_Failure [OF f] q show ?thesis by simp
qed

theorem insert_enospc_leaves_node_witness:
  "apfs_btree_insert empty_sb (empty_query\<lparr>q_node := empty_node\<lparr>n_data := 100\<rparr>\<rparr>)
     (replicate 24 1) 24 (Some (replicate 16 2)) 16
   = Failure ENOSPC (empty_query\<lparr>q_node := empty_node\<lparr>n_data := 100\<rparr>\<rparr>) \<and>
   toc_full (empty_node\<lparr>n_data := 100\<rparr>) \<and>
   n_free empty_node + toc_inc empty_node + 24 + 16 > 100"
proof -
  have h: "apfs_btree_insert empty_sb (empty_query\<lparr>q_node := empty_node\<lparr>n_data := 100\<rparr>\<rparr>)
     (replicate 24 1) 24 (Some (replicate 16 2)) 16
     = Failure ENOSPC (empty_query\<lparr>q_node := empty_node\<lparr>n_data := 100\<rparr>\<rparr>)"
    by (simp add: apfs_btree_insert_def expand_toc_def toc_full_def toc_inc_def buffer_ok_def
        empty_sb_def empty_query_def empty_node_def empty_block_def toc_entry_size_def
        rd_wr_same layout_defs)
  from insert_enospc_leaves_node [OF h] h show ?thesis
    by (simp add: empty_query_def empty_node_def toc_inc_def toc_entry_size_def layout_defs)
qed

text \<open>
  C4. On a root-and-leaf node, \<open>apfs_btree_insert\<close> returns \<open>-ENOSPC\<close> when
  \<open>free + key_len + val_len > data\<close>, or when the table of contents is full and
  \<open>free + inc + key_len + val_len > data\<close>; in every other case it returns 0.
\<close>

theorem insert_enospc_exactly:
  assumes wf: "root_leaf_node sb (q_node query)"
    and args: "insert_args_ok query key key_len val val_len"
  shows "if n_free (q_node query) + key_len + val_len > n_data (q_node query) \<or>
            toc_full (q_node query) \<and>
            n_free (q_node query) + toc_inc (q_node query) + key_len + val_len > n_data (q_node query)
         then apfs_btree_insert sb query key key_len val val_len = Failure ENOSPC query
         else \<exists>query'. apfs_btree_insert sb query key key_len val val_len = Success query'"
proof -
  let ?node = "q_node query"
  have pre: "buffer_ok sb ?node" "n_is_root ?node" "n_is_leaf ?node"
    "s_xid sb = rd_le64 o_xid_at (b_data ?node)"
    using wf by (simp_all add: root_leaf_node_def)
  consider (first) "n_free ?node + key_len + val_len > n_data ?node"
    | (second) "\<not> n_free ?node + key_len + val_len > n_data ?node" "toc_full ?node"
        "n_free ?node + toc_inc ?node + key_len + val_len > n_data ?node"
    | (fits) "n_free ?node + key_len + val_len \<le> n_data ?node"
        "toc_full ?node \<longrightarrow> n_free ?node + toc_inc ?node + key_len + val_len \<le> n_data ?node"
    by linarith
  then show ?thesis
  proof cases
    case first
    with pre have "apfs_btree_insert sb query key key_len val val_len = Failure ENOSPC query"
      by (simp add: apfs_btree_insert_def)
    with first show ?thesis by simp
  next
    case second
    with pre expand_toc_nospace [of ?node key_len val_len]
    have "apfs_btree_insert sb query key key_len val val_len = Failure ENOSPC query"
      by (simp add: apfs_btree_insert_def)
    with second show ?thesis by simp
  next
    case fits
    from insert_steps [OF wf args fits]
    obtain query' where "apfs_btree_insert sb query key key_len val val_len = Success query'"
      by blast
    with fits show ?thesis by (auto simp: not_less)
  qed
qed


theorem insert_enospc_exactly_witness:
  "root_leaf_node empty_sb empty_node \<and>
   insert_args_ok empty_query (replicate 8 1) 8 (Some (replicate 4056 2)) 4056 \<and>
   insert_args_ok empty_query (replicate 8 1) 8 (Some (replicate 8 2)) 8 \<and>
   apfs_btree_insert empty_sb empty_query (replicate 8 1) 8 (Some (replicate 4056 2)) 4056
     = Failure ENOSPC empty_query \<and>
   (\<exists>query'. apfs_btree_insert empty_sb empty_query (replicate 8 1) 8 (Some (replicate 8 2)) 8
     = Success query')"
proof -
  have q: "q_node empty_query = empty_node" by (simp add: empty_query_def)
  have wf: "root_leaf_node empty_sb (q_node empty_query)"
    using empty_node_ok by (simp add: q)
  have a1: "insert_args_ok empty_query (replicate 8 1) 8 (Some (replicate 4056 2)) 4056"
    and a2: "insert_args_ok empty_query (replicate 8 1) 8 (Some (replicate 8 2)) 8"
    by (simp_all add: insert_args_ok_def empty_query_def empty_node_def)
  show ?thesis
    using insert_enospc_exactly [OF wf a1] insert_enospc_exactly [OF wf a2] wf a1 a2
    by (simp add: q) (simp add: empty_node_def toc_full_def toc_inc_def toc_entry_size_def layout_defs)
qed



text \<open>
  C3. An insert that fits, on a root-and-leaf node, places the new record
  immediately after the slot that the query has returned. The index of the query goes up
  by one and the new record is there: the entries up to the slot of the query stay, the
  entries from the new index to the last move one slot to the right, and the new entry
  has, in a fixed-size tree, the key offset \<open>free - key\<close> and the value field
  \<open>val_len\<close> (\<open>APFS_BTOFF_INVALID\<close> for a ghost), in a variable-size tree the key
  offset and length, the value offset \<open>s_blocksize - data - sizeof(*info) + val_len\<close>
  and the value length. The key is stored at \<open>free\<close> (after the growth of the table of
  contents, if any) and \<open>free\<close> advances by \<open>key_len\<close>; the value is stored at
  \<open>data - val_len\<close> and \<open>data\<close> goes down by \<open>val_len\<close>, or for a ghost \<open>data\<close>
  and the bytes from the new \<open>free\<close> to \<open>data\<close> stay. The number of records,
  \<open>btn_nkeys\<close> and \<open>bt_key_count\<close> go up by one, and \<open>bt_longest_key\<close> and
  \<open>bt_longest_val\<close> become the maxima.
\<close>

theorem insert_places_record:
  assumes wf: "root_leaf_node sb (q_node query)"
    and args: "insert_args_ok query key key_len val val_len"
    and fit1: "n_free (q_node query) + key_len + val_len \<le> n_data (q_node query)"
    and fit2: "toc_full (q_node query) \<longrightarrow>
        n_free (q_node query) + toc_inc (q_node query) + key_len + val_len \<le> n_data (q_node query)"
  shows "\<exists>node'.
    apfs_btree_insert sb query key key_len val val_len =
      Success (query\<lparr>q_node := node', q_index := q_index query + 1\<rparr>) \<and>
    (\<forall>j. 0 \<le> j \<and> j < q_index query + 1 \<longrightarrow> toc_entry node' j = toc_entry (q_node query) j) \<and>
    (\<forall>j. q_index query + 1 \<le> j \<and> j < n_records (q_node query) \<longrightarrow>
        toc_entry node' (j + 1) = toc_entry (q_node query) j) \<and>
    (if n_has_fixed_kv_size (q_node query) then
       kvoff_k node' (q_index query + 1) = word_of_int (n_free (q_node query) - n_key (q_node query)) \<and>
       kvoff_v node' (q_index query + 1) =
         (case val of None \<Rightarrow> APFS_BTOFF_INVALID | Some v \<Rightarrow> word_of_int val_len)
     else
       kvloc_k_off node' (q_index query + 1) = word_of_int (n_free (q_node query) - n_key (q_node query)) \<and>
       kvloc_k_len node' (q_index query + 1) = word_of_int key_len \<and>
       kvloc_v_off node' (q_index query + 1) =
         word_of_int (s_blocksize sb - n_data (q_node query) - btree_info_size + val_len) \<and>
       kvloc_v_len node' (q_index query + 1) = word_of_int val_len) \<and>
    get_bytes (n_free (q_node query) + toc_growth (q_node query)) key_len (b_data node') =
      take (nat key_len) key \<and>
    n_free node' = n_free (q_node query) + toc_growth (q_node query) + key_len \<and>
    (case val of
       None \<Rightarrow> n_data node' = n_data (q_node query) \<and>
         get_bytes (n_free node') (n_data (q_node query) - n_free node') (b_data node') =
         get_bytes (n_free node') (n_data (q_node query) - n_free node') (b_data (q_node query))
     | Some v \<Rightarrow> n_data node' = n_data (q_node query) - val_len \<and>
         get_bytes (n_data (q_node query) - val_len) val_len (b_data node') = take (nat val_len) v) \<and>
    n_records node' = n_records (q_node query) + 1 \<and>
    btn_nkeys node' = word_of_int (n_records (q_node query) + 1) \<and>
    bt_key_count sb node' = bt_key_count sb (q_node query) + 1 \<and>
    bt_longest_key sb node' = max (bt_longest_key sb (q_node query)) (word_of_int key_len) \<and>
    bt_longest_val sb node' = max (bt_longest_val sb (q_node query)) (word_of_int val_len)"
  using wf args fit1 fit2
proof (cases rule: insert_effects)
  case (eff node')
  let ?node = "q_node query"
  note r = eff(1) and f = eff(2,4,5,8) and u = eff(10) and sh = eff(11) and sl = eff(12-14)
    and kb = eff(15) and vb = eff(16) and cnt = eff(21-24)
  have tes: "toc_entry_size ?node = 4 \<or> toc_entry_size ?node = 8"
    by (rule toc_entry_size_cases)
  have te: "toc_entry_at node' j = toc_entry_at ?node j" "toc_entry_size node' = toc_entry_size ?node"
    for j using f(4) by (simp_all add: toc_entry_at_def toc_entry_size_def)
  note ar = insert_arith [OF wf args fit1 fit2]
  have before: "toc_entry node' j = toc_entry ?node j" if "0 \<le> j" "j < q_index query + 1" for j
    unfolding toc_entry_def te using tes ar(1-12,15) that toc_inc_pos [of ?node]
    by (intro untouched_get [OF u]) (auto simp: toc_entry_at_def info_at_def layout_defs)
  have ghost: "get_bytes (n_free node') (n_data ?node - n_free node') (b_data node') =
         get_bytes (n_free node') (n_data ?node - n_free node') (b_data ?node)" if "val = None"
    unfolding f using tes ar(1-12,15) that toc_inc_pos [of ?node]
    by (intro untouched_get [OF u])
      (auto simp: toc_entry_at_def info_at_def layout_defs val_written_def)
  have c2: "\<forall>j. 0 \<le> j \<and> j < q_index query + 1 \<longrightarrow> toc_entry node' j = toc_entry ?node j"
    using before by blast
  have c3: "\<forall>j. q_index query + 1 \<le> j \<and> j < n_records ?node \<longrightarrow>
        toc_entry node' (j + 1) = toc_entry ?node j"
  proof (intro allI impI)
    fix j assume j: "q_index query + 1 \<le> j \<and> j < n_records ?node"
    have e: "toc_entry_at ?node (j + 1) =
        toc_entry_at ?node (q_index query + 2) + (j - (q_index query + 1)) * toc_entry_size ?node"
      "toc_entry_at ?node j =
        toc_entry_at ?node (q_index query + 1) + (j - (q_index query + 1)) * toc_entry_size ?node"
      by (simp_all add: toc_entry_at_def algebra_simps)
    show "toc_entry node' (j + 1) = toc_entry ?node j"
      unfolding toc_entry_def te e using j tes by (intro sh) auto
  qed
  have c4: "if n_has_fixed_kv_size ?node then
       kvoff_k node' (q_index query + 1) = word_of_int (n_free ?node - n_key ?node) \<and>
       kvoff_v node' (q_index query + 1) =
         (case val of None \<Rightarrow> APFS_BTOFF_INVALID | Some v \<Rightarrow> word_of_int val_len)
     else
       kvloc_k_off node' (q_index query + 1) = word_of_int (n_free ?node - n_key ?node) \<and>
       kvloc_k_len node' (q_index query + 1) = word_of_int key_len \<and>
       kvloc_v_off node' (q_index query + 1) =
         word_of_int (s_blocksize sb - n_data ?node - btree_info_size + val_len) \<and>
       kvloc_v_len node' (q_index query + 1) = word_of_int val_len"
    using sl by (simp add: view_defs te)
  have c7: "case val of
       None \<Rightarrow> n_data node' = n_data ?node \<and>
         get_bytes (n_free node') (n_data ?node - n_free node') (b_data node') =
         get_bytes (n_free node') (n_data ?node - n_free node') (b_data ?node)
     | Some v \<Rightarrow> n_data node' = n_data ?node - val_len \<and>
         get_bytes (n_data ?node - val_len) val_len (b_data node') = take (nat val_len) v"
    using f(3) vb ghost by (simp add: val_written_def split: option.splits)
  have c9: "btn_nkeys node' = word_of_int (n_records ?node + 1)"
    "bt_key_count sb node' = bt_key_count sb ?node + 1"
    "bt_longest_key sb node' = max (bt_longest_key sb ?node) (word_of_int key_len)"
    "bt_longest_val sb node' = max (bt_longest_val sb ?node) (word_of_int val_len)"
    using cnt by (simp_all add: view_defs)
  show ?thesis
    using r c2 c3 c4 kb f(1,2) c7 c9 by blast
qed


theorem insert_places_record_witness:
  "root_leaf_node empty_sb (q_node one_record_query) \<and>
   insert_args_ok one_record_query (replicate 8 1) 8 (Some (replicate 8 2)) 8 \<and>
   n_free (q_node one_record_query) + 8 + 8 \<le> n_data (q_node one_record_query) \<and>
   \<not> toc_full (q_node one_record_query) \<and>
   (\<exists>node'. apfs_btree_insert empty_sb one_record_query (replicate 8 1) 8 (Some (replicate 8 2)) 8 =
      Success (one_record_query\<lparr>q_node := node', q_index := 0\<rparr>) \<and>
      toc_entry node' 1 = toc_entry one_record_node 0 \<and>
      kvoff_k node' 0 = 8 \<and> kvoff_v node' 0 = 8 \<and>
      get_bytes 96 8 (b_data node') = replicate 8 1 \<and>
      get_bytes 4040 8 (b_data node') = replicate 8 2 \<and>
      n_free node' = 104 \<and> n_data node' = 4040 \<and> n_records node' = 2 \<and>
      btn_nkeys node' = 2 \<and>
      bt_key_count empty_sb node' = bt_key_count empty_sb one_record_node + 1)"
proof -
  have q: "q_node one_record_query = one_record_node" "q_index one_record_query = - 1"
    by (simp_all add: one_record_query_def empty_query_def)
  have n: "n_records one_record_node = 1" "n_key one_record_node = 88"
    "n_free one_record_node = 96" "n_data one_record_node = 4048"
    "n_has_fixed_kv_size one_record_node"
    by (simp_all add: one_record_node_def empty_node_def)
  have wf: "root_leaf_node empty_sb (q_node one_record_query)"
    using one_record_node_ok by (simp add: q)
  have a: "insert_args_ok one_record_query (replicate 8 1) 8 (Some (replicate 8 2)) 8"
    by (simp add: insert_args_ok_def q n)
  have nf: "\<not> toc_full (q_node one_record_query)"
    by (simp add: toc_full_def toc_entry_size_def q n layout_defs)
  have f1: "n_free (q_node one_record_query) + 8 + 8 \<le> n_data (q_node one_record_query)"
    by (simp add: q n)
  have f2: "toc_full (q_node one_record_query) \<longrightarrow>
      n_free (q_node one_record_query) + toc_inc (q_node one_record_query) + 8 + 8
        \<le> n_data (q_node one_record_query)"
    using nf by simp
  from insert_places_record [OF wf a f1 f2] obtain node' where
    r: "apfs_btree_insert empty_sb one_record_query (replicate 8 1) 8 (Some (replicate 8 2)) 8 =
      Success (one_record_query\<lparr>q_node := node', q_index := q_index one_record_query + 1\<rparr>)"
    and sh: "\<forall>j. q_index one_record_query + 1 \<le> j \<and> j < n_records (q_node one_record_query) \<longrightarrow>
        toc_entry node' (j + 1) = toc_entry (q_node one_record_query) j"
    and rest: "(if n_has_fixed_kv_size (q_node one_record_query) then
       kvoff_k node' (q_index one_record_query + 1) =
         word_of_int (n_free (q_node one_record_query) - n_key (q_node one_record_query)) \<and>
       kvoff_v node' (q_index one_record_query + 1) =
         (case Some (replicate 8 (2 :: u8)) of None \<Rightarrow> APFS_BTOFF_INVALID | Some v \<Rightarrow> word_of_int 8)
     else
       kvloc_k_off node' (q_index one_record_query + 1) =
         word_of_int (n_free (q_node one_record_query) - n_key (q_node one_record_query)) \<and>
       kvloc_k_len node' (q_index one_record_query + 1) = word_of_int 8 \<and>
       kvloc_v_off node' (q_index one_record_query + 1) =
         word_of_int (s_blocksize empty_sb - n_data (q_node one_record_query) - btree_info_size + 8) \<and>
       kvloc_v_len node' (q_index one_record_query + 1) = word_of_int 8)"
      "get_bytes (n_free (q_node one_record_query) + toc_growth (q_node one_record_query)) 8 (b_data node') =
        take (nat 8) (replicate 8 1)"
      "n_free node' = n_free (q_node one_record_query) + toc_growth (q_node one_record_query) + 8"
      "(case Some (replicate 8 (2 :: u8)) of
       None \<Rightarrow> n_data node' = n_data (q_node one_record_query) \<and>
         get_bytes (n_free node') (n_data (q_node one_record_query) - n_free node') (b_data node') =
         get_bytes (n_free node') (n_data (q_node one_record_query) - n_free node')
           (b_data (q_node one_record_query))
     | Some v \<Rightarrow> n_data node' = n_data (q_node one_record_query) - 8 \<and>
         get_bytes (n_data (q_node one_record_query) - 8) 8 (b_data node') = take (nat 8) v)"
      "n_records node' = n_records (q_node one_record_query) + 1"
      "btn_nkeys node' = word_of_int (n_records (q_node one_record_query) + 1)"
      "bt_key_count empty_sb node' = bt_key_count empty_sb (q_node one_record_query) + 1"
    by blast
  have g: "toc_growth one_record_node = 0"
    using nf by (simp add: toc_growth_def q)
  have "toc_entry node' 1 = toc_entry one_record_node 0"
    using sh [rule_format, of 0] by (simp add: q n)
  with r rest wf a f1 nf show ?thesis
    by (intro conjI exI [of _ node']) (simp_all add: q n g)
qed


text \<open>
  The record is not placed before the slot returned by the query: in the node of one
  record, for the query that has found that record at slot 0, the record found is still at
  slot 0 after the insert, and the new record, with its key 8 bytes above the base of the
  keys, is at slot 1.
\<close>

theorem insert_not_before_found:
  "(case apfs_btree_insert empty_sb found_query (replicate 8 1) 8 (Some (replicate 8 2)) 8 of
      Success query' \<Rightarrow>
        q_index found_query = 0 \<and> q_index query' = 1 \<and>
        kvoff_k one_record_node 0 = 0 \<and>
        kvoff_k (q_node query') 0 = 0 \<and>
        toc_entry (q_node query') 0 = toc_entry one_record_node 0 \<and>
        kvoff_k (q_node query') 1 = 8 \<and> kvoff_v (q_node query') 1 = 8 \<and>
        get_bytes (n_key (q_node query') + 8) 8 (b_data (q_node query')) = replicate 8 1
    | Failure e query' \<Rightarrow> False
    | Undefined \<Rightarrow> False)"
proof -
  have q: "q_node found_query = one_record_node" "q_index found_query = 0"
    by (simp_all add: found_query_def one_record_query_def empty_query_def)
  have n: "n_records one_record_node = 1" "n_key one_record_node = 88"
    "n_free one_record_node = 96" "n_data one_record_node = 4048"
    "n_has_fixed_kv_size one_record_node" "b_data one_record_node = empty_block"
    by (simp_all add: one_record_node_def empty_node_def)
  have tes: "toc_entry_size one_record_node = 4" "toc_entry_at one_record_node j = 56 + j * 4" for j
    by (simp_all add: toc_entry_size_def toc_entry_at_def n layout_defs)
  have wf: "root_leaf_node empty_sb (q_node found_query)"
    using one_record_node_ok by (simp add: q)
  have a: "insert_args_ok found_query (replicate 8 1) 8 (Some (replicate 8 2)) 8"
    by (simp add: insert_args_ok_def q n)
  have nf: "\<not> toc_full (q_node found_query)"
    by (simp add: toc_full_def q n tes layout_defs)
  have f1: "n_free (q_node found_query) + 8 + 8 \<le> n_data (q_node found_query)"
    by (simp add: q n)
  have f2: "toc_full (q_node found_query) \<longrightarrow>
      n_free (q_node found_query) + toc_inc (q_node found_query) + 8 + 8
        \<le> n_data (q_node found_query)"
    using nf by simp
  from wf a f1 f2 show ?thesis
  proof (cases rule: insert_effects)
    case (eff node')
    have g: "toc_growth one_record_node = 0" using nf by (simp add: toc_growth_def q)
    have te': "toc_entry_at node' j = 56 + j * 4" "toc_entry_size node' = 4" for j
      using eff(8) n(5) by (simp_all add: toc_entry_at_def toc_entry_size_def q layout_defs)
    note u = eff(10) [unfolded q n tes g, simplified]
    have s0: "get_bytes 56 4 (b_data node') = get_bytes 56 4 empty_block"
      by (rule untouched_get [OF u])
        (simp_all add: layout_defs info_at_def empty_sb_def val_written_def nf [unfolded q])
    have k0: "rd_le16 56 (b_data node') = rd_le16 56 empty_block"
      by (rule untouched_rd(1) [OF u])
        (simp_all add: layout_defs info_at_def empty_sb_def val_written_def nf [unfolded q])
    have k1: "rd_le16 60 (b_data node') = 8" "rd_le16 62 (b_data node') = 8"
      using eff(12) eff(13) by (simp_all add: q n tes)
    have kb: "get_bytes 96 8 (b_data node') = replicate 8 1"
      using eff(15) by (simp add: q n g)
    have nk: "n_key node' = 88" using eff(3) by (simp add: q n g)
    show ?thesis
      by (simp add: eff(1) q n kvoff_k_def kvoff_v_def toc_entry_def te' tes s0 k0 k1 kb nk
          empty_block_zero)
  qed
qed

text \<open>
  C5. When \<open>sizeof(*node_raw) + (records + 1) * toc_entry_size > key\<close> the insert first
  extends the table of contents by \<open>inc = 8 * toc_entry_size\<close>: the bytes of the key
  area are found \<open>inc\<close> higher, \<open>key\<close> and \<open>free\<close> go up by \<open>inc\<close> (and \<open>free\<close> by
  the new key), \<open>btn_table_space.len\<close> grows by \<open>inc\<close> and \<open>btn_free_space.len\<close>
  shrinks by \<open>inc\<close> (and by the new key and value). Otherwise \<open>key\<close> and
  \<open>btn_table_space.len\<close> stay, the key area stays where it is, and \<open>free\<close> and
  \<open>btn_free_space.len\<close> change by the new record only. \<open>bt_key_count\<close> goes up by one.
\<close>

theorem insert_extends_toc:
  assumes wf: "root_leaf_node sb (q_node query)"
    and args: "insert_args_ok query key key_len val val_len"
    and fit1: "n_free (q_node query) + key_len + val_len \<le> n_data (q_node query)"
    and fit2: "toc_full (q_node query) \<longrightarrow>
        n_free (q_node query) + toc_inc (q_node query) + key_len + val_len \<le> n_data (q_node query)"
  shows "\<exists>node'.
    apfs_btree_insert sb query key key_len val val_len =
      Success (query\<lparr>q_node := node', q_index := q_index query + 1\<rparr>) \<and>
    (if node_phys_size + (n_records (q_node query) + 1) * toc_entry_size (q_node query)
          > n_key (q_node query)
     then
       n_key node' = n_key (q_node query) + 8 * toc_entry_size (q_node query) \<and>
       n_free node' = n_free (q_node query) + 8 * toc_entry_size (q_node query) + key_len \<and>
       get_bytes (n_key (q_node query) + 8 * toc_entry_size (q_node query))
           (n_free (q_node query) - n_key (q_node query)) (b_data node') =
         get_bytes (n_key (q_node query)) (n_free (q_node query) - n_key (q_node query))
           (b_data (q_node query)) \<and>
       btn_table_space_len node' =
         btn_table_space_len (q_node query) + word_of_int (8 * toc_entry_size (q_node query)) \<and>
       btn_free_space_len node' =
         btn_free_space_len (q_node query) - word_of_int (8 * toc_entry_size (q_node query))
           - word_of_int key_len - word_of_int (val_written val val_len)
     else
       n_key node' = n_key (q_node query) \<and>
       n_free node' = n_free (q_node query) + key_len \<and>
       get_bytes (n_key (q_node query)) (n_free (q_node query) - n_key (q_node query)) (b_data node') =
         get_bytes (n_key (q_node query)) (n_free (q_node query) - n_key (q_node query))
           (b_data (q_node query)) \<and>
       btn_table_space_len node' = btn_table_space_len (q_node query) \<and>
       btn_free_space_len node' =
         btn_free_space_len (q_node query) - word_of_int key_len
           - word_of_int (val_written val val_len)) \<and>
    n_records node' = n_records (q_node query) + 1 \<and>
    bt_key_count sb node' = bt_key_count sb (q_node query) + 1"
  using wf args fit1 fit2
proof (cases rule: insert_effects)
  case (eff node')
  let ?node = "q_node query"
  show ?thesis
  proof (cases "node_phys_size + (n_records ?node + 1) * toc_entry_size ?node > n_key ?node")
    case True
    then have g: "toc_growth ?node = 8 * toc_entry_size ?node"
      by (simp add: toc_growth_def toc_full_def toc_inc_def layout_defs)
    show ?thesis
      using eff(1,2,3,4,17,18,20,21) True
      by (intro exI [of _ node']) (simp add: g view_defs)
  next
    case False
    then have g: "toc_growth ?node = 0"
      by (simp add: toc_growth_def toc_full_def)
    show ?thesis
      using eff(1,2,3,4,17,18,20,21) False
      by (intro exI [of _ node']) (simp add: g view_defs)
  qed
qed


theorem insert_extends_toc_witness:
  "\<exists>query8. insert_all empty_sb empty_query (map record_no [1..<9]) = Success query8 \<and>
     root_leaf_node empty_sb (q_node query8) \<and>
     insert_args_ok query8 (fst (record_no 9)) 8 (Some (snd (record_no 9))) 8 \<and>
     n_free (q_node query8) + 8 + 8 \<le> n_data (q_node query8) \<and>
     node_phys_size + (n_records (q_node query8) + 1) * toc_entry_size (q_node query8)
       > n_key (q_node query8) \<and>
     8 * toc_entry_size (q_node query8) = 32 \<and>
     (\<exists>node'. apfs_btree_insert empty_sb query8 (fst (record_no 9)) 8 (Some (snd (record_no 9))) 8 =
          Success (query8\<lparr>q_node := node', q_index := 8\<rparr>) \<and>
        n_key node' = n_key (q_node query8) + 32 \<and>
        get_bytes (n_key (q_node query8) + 32) (n_free (q_node query8) - n_key (q_node query8))
            (b_data node') =
          get_bytes (n_key (q_node query8)) (n_free (q_node query8) - n_key (q_node query8))
            (b_data (q_node query8)) \<and>
        btn_table_space_len node' = btn_table_space_len (q_node query8) + 32 \<and>
        n_records node' = 9 \<and> bt_key_count empty_sb node' = 9)"
proof -
  have "\<exists>query8. insert_all empty_sb empty_query (map record_no [1..<9]) = Success query8 \<and>
      filled empty_sb query8 (0 + int (length (map record_no [1..<9])))"
    by (rule filled_insert_all [OF empty_query_filled]) (simp_all add: record_no_def)
  then obtain query8 where
    i: "insert_all empty_sb empty_query (map record_no [1..<9]) = Success query8"
    and f: "filled empty_sb query8 8"
    by auto
  let ?node = "q_node query8"
  have wf: "root_leaf_node empty_sb ?node" and fx: "n_has_fixed_kv_size ?node"
    and v: "n_records ?node = 8" "q_index query8 = 7" "n_key ?node = 88" "n_free ?node = 152"
      "n_data ?node = 3992" "bt_key_count empty_sb ?node = 8"
    using f by (simp_all add: filled_def)
  have tes: "toc_entry_size ?node = 4" using fx by (simp add: toc_entry_size_def layout_defs)
  have full: "node_phys_size + (n_records ?node + 1) * toc_entry_size ?node > n_key ?node"
    by (simp add: v tes layout_defs)
  have args: "insert_args_ok query8 (fst (record_no 9)) 8 (Some (snd (record_no 9))) 8"
    by (simp add: insert_args_ok_def v record_no_def)
  have fit1: "n_free ?node + 8 + 8 \<le> n_data ?node" by (simp add: v)
  have fit2: "toc_full ?node \<longrightarrow> n_free ?node + toc_inc ?node + 8 + 8 \<le> n_data ?node"
    by (simp add: v toc_inc_def tes layout_defs)
  from insert_extends_toc [OF wf args fit1 fit2] full obtain node' where
    "apfs_btree_insert empty_sb query8 (fst (record_no 9)) 8 (Some (snd (record_no 9))) 8 =
          Success (query8\<lparr>q_node := node', q_index := q_index query8 + 1\<rparr>)"
    "n_key node' = n_key ?node + 8 * toc_entry_size ?node"
    "get_bytes (n_key ?node + 8 * toc_entry_size ?node) (n_free ?node - n_key ?node) (b_data node') =
       get_bytes (n_key ?node) (n_free ?node - n_key ?node) (b_data ?node)"
    "btn_table_space_len node' = btn_table_space_len ?node + word_of_int (8 * toc_entry_size ?node)"
    "n_records node' = n_records ?node + 1"
    "bt_key_count empty_sb node' = bt_key_count empty_sb ?node + 1"
    by auto
  then have "apfs_btree_insert empty_sb query8 (fst (record_no 9)) 8 (Some (snd (record_no 9))) 8 =
          Success (query8\<lparr>q_node := node', q_index := 8\<rparr>) \<and>
        n_key node' = n_key ?node + 32 \<and>
        get_bytes (n_key ?node + 32) (n_free ?node - n_key ?node) (b_data node') =
          get_bytes (n_key ?node) (n_free ?node - n_key ?node) (b_data ?node) \<and>
        btn_table_space_len node' = btn_table_space_len ?node + 32 \<and>
        n_records node' = 9 \<and> bt_key_count empty_sb node' = 9"
    by (simp add: v tes)
  with i wf args fit1 full tes show ?thesis by auto
qed


section \<open>Properties of the remove\<close>

text \<open>
  C7. \<open>apfs_btree_remove\<close> on a root-and-leaf node, for the entry \<open>index\<close> of the query:
  the entries before it stay and the later ones move one slot to the left; the number of
  records, \<open>btn_nkeys\<close> and \<open>bt_key_count\<close> go down by one; \<open>btn_key_free_list.len\<close>
  grows by \<open>key_len\<close> and \<open>btn_val_free_list.len\<close> by \<open>len\<close> of the query. The offsets
  \<open>key\<close>, \<open>free\<close> and \<open>data\<close> of the node, every byte from the start of the key area
  to the tree info, the offsets of the two free lists and the recorded spans of the table
  of contents and of the free space are as before.
\<close>

theorem remove_takes_entry_out:
  assumes wf: "root_leaf_node sb (q_node query)"
    and idx: "0 \<le> q_index query" "q_index query < n_records (q_node query)"
  shows "\<exists>node'.
    apfs_btree_remove sb query = Success (query\<lparr>q_node := node'\<rparr>) \<and>
    (\<forall>j. 0 \<le> j \<and> j < q_index query \<longrightarrow> toc_entry node' j = toc_entry (q_node query) j) \<and>
    (\<forall>j. q_index query \<le> j \<and> j < n_records (q_node query) - 1 \<longrightarrow>
        toc_entry node' j = toc_entry (q_node query) (j + 1)) \<and>
    n_records node' = n_records (q_node query) - 1 \<and>
    btn_nkeys node' = word_of_int (n_records (q_node query) - 1) \<and>
    bt_key_count sb node' = bt_key_count sb (q_node query) - 1 \<and>
    btn_key_free_list_len node' =
      btn_key_free_list_len (q_node query) + word_of_int (q_key_len query) \<and>
    btn_val_free_list_len node' =
      btn_val_free_list_len (q_node query) + word_of_int (q_len query) \<and>
    n_key node' = n_key (q_node query) \<and> n_free node' = n_free (q_node query) \<and>
    n_data node' = n_data (q_node query) \<and>
    get_bytes (n_key (q_node query)) (info_at sb - n_key (q_node query)) (b_data node') =
      get_bytes (n_key (q_node query)) (info_at sb - n_key (q_node query)) (b_data (q_node query)) \<and>
    btn_key_free_list_off node' = btn_key_free_list_off (q_node query) \<and>
    btn_val_free_list_off node' = btn_val_free_list_off (q_node query) \<and>
    btn_table_space_len node' = btn_table_space_len (q_node query) \<and>
    btn_free_space_off node' = btn_free_space_off (q_node query) \<and>
    btn_free_space_len node' = btn_free_space_len (q_node query)"
  using wf idx
proof (cases rule: remove_effects)
  case (eff node')
  let ?node = "q_node query"
  note u = eff(8) and sh = eff(9)
  have tes: "toc_entry_size ?node = 4 \<or> toc_entry_size ?node = 8"
    by (rule toc_entry_size_cases)
  have te: "toc_entry_at node' j = toc_entry_at ?node j" "toc_entry_size node' = toc_entry_size ?node"
    for j using eff(6) by (simp_all add: toc_entry_at_def toc_entry_size_def)
  have lay: "56 + n_records ?node * toc_entry_size ?node \<le> n_key ?node"
    "n_key ?node \<le> n_free ?node" "n_free ?node \<le> n_data ?node"
    "n_data ?node \<le> s_blocksize sb - 40"
    using wf by (simp_all add: root_leaf_node_def layout_defs)
  have c2: "\<forall>j. 0 \<le> j \<and> j < q_index query \<longrightarrow> toc_entry node' j = toc_entry ?node j"
  proof (intro allI impI)
    fix j assume j: "0 \<le> j \<and> j < q_index query"
    show "toc_entry node' j = toc_entry ?node j"
      unfolding toc_entry_def te using tes lay idx j
      by (intro untouched_get [OF u]) (auto simp: toc_entry_at_def info_at_def layout_defs)
  qed
  have c3: "\<forall>j. q_index query \<le> j \<and> j < n_records ?node - 1 \<longrightarrow>
        toc_entry node' j = toc_entry ?node (j + 1)"
  proof (intro allI impI)
    fix j assume j: "q_index query \<le> j \<and> j < n_records ?node - 1"
    have e: "toc_entry_at ?node j =
        toc_entry_at ?node (q_index query) + (j - q_index query) * toc_entry_size ?node"
      "toc_entry_at ?node (j + 1) =
        toc_entry_at ?node (q_index query + 1) + (j - q_index query) * toc_entry_size ?node"
      by (simp_all add: toc_entry_at_def algebra_simps)
    show "toc_entry node' j = toc_entry ?node (j + 1)"
      unfolding toc_entry_def te e using j tes by (intro sh) auto
  qed
  have area: "get_bytes (n_key ?node) (info_at sb - n_key ?node) (b_data node') =
      get_bytes (n_key ?node) (info_at sb - n_key ?node) (b_data ?node)"
    using tes lay idx
    by (intro untouched_get [OF u]) (auto simp: toc_entry_at_def info_at_def layout_defs)
  have hdr: "rd_le16 key_free_list_off_at (b_data node') = rd_le16 key_free_list_off_at (b_data ?node)"
    "rd_le16 val_free_list_off_at (b_data node') = rd_le16 val_free_list_off_at (b_data ?node)"
    "rd_le16 table_space_len_at (b_data node') = rd_le16 table_space_len_at (b_data ?node)"
    "rd_le16 free_space_off_at (b_data node') = rd_le16 free_space_off_at (b_data ?node)"
    "rd_le16 free_space_len_at (b_data node') = rd_le16 free_space_len_at (b_data ?node)"
    using tes lay idx
    by ((intro untouched_rd(1) [OF u]), (auto simp: toc_entry_at_def info_at_def layout_defs)[2])+
  show ?thesis
    using eff(1-5,10-13) c2 c3 area hdr
    by (intro exI [of _ node']) (simp add: view_defs)
qed

theorem remove_takes_entry_out_witness:
  "root_leaf_node empty_sb (q_node two_record_query) \<and>
   0 \<le> q_index two_record_query \<and> q_index two_record_query < n_records (q_node two_record_query) \<and>
   (\<exists>node'. apfs_btree_remove empty_sb two_record_query = Success (two_record_query\<lparr>q_node := node'\<rparr>) \<and>
      toc_entry node' 0 = toc_entry two_record_node 1 \<and>
      n_records node' = 1 \<and> btn_nkeys node' = 1 \<and>
      bt_key_count empty_sb node' = bt_key_count empty_sb two_record_node - 1 \<and>
      btn_key_free_list_len node' = btn_key_free_list_len two_record_node + 8 \<and>
      btn_val_free_list_len node' = btn_val_free_list_len two_record_node + 8 \<and>
      n_key node' = 88 \<and> n_free node' = 104 \<and> n_data node' = 4040)"
proof -
  have q: "q_node two_record_query = two_record_node" "q_index two_record_query = 0"
    "q_key_len two_record_query = 8" "q_len two_record_query = 8"
    by (simp_all add: two_record_query_def empty_query_def)
  have n: "n_records two_record_node = 2" "n_key two_record_node = 88"
    "n_free two_record_node = 104" "n_data two_record_node = 4040"
    by (simp_all add: two_record_node_def empty_node_def)
  have wf: "root_leaf_node empty_sb (q_node two_record_query)"
    using two_record_node_ok by (simp add: q)
  have i: "0 \<le> q_index two_record_query" "q_index two_record_query < n_records (q_node two_record_query)"
    by (simp_all add: q n)
  from remove_takes_entry_out [OF wf i] obtain node' where
    r: "apfs_btree_remove empty_sb two_record_query = Success (two_record_query\<lparr>q_node := node'\<rparr>)"
    and sh: "\<forall>j. q_index two_record_query \<le> j \<and> j < n_records (q_node two_record_query) - 1 \<longrightarrow>
        toc_entry node' j = toc_entry (q_node two_record_query) (j + 1)"
    and rest: "n_records node' = n_records (q_node two_record_query) - 1"
      "btn_nkeys node' = word_of_int (n_records (q_node two_record_query) - 1)"
      "bt_key_count empty_sb node' = bt_key_count empty_sb (q_node two_record_query) - 1"
      "btn_key_free_list_len node' =
        btn_key_free_list_len (q_node two_record_query) + word_of_int (q_key_len two_record_query)"
      "btn_val_free_list_len node' =
        btn_val_free_list_len (q_node two_record_query) + word_of_int (q_len two_record_query)"
      "n_key node' = n_key (q_node two_record_query)" "n_free node' = n_free (q_node two_record_query)"
      "n_data node' = n_data (q_node two_record_query)"
    by blast
  have "toc_entry node' 0 = toc_entry two_record_node 1"
    using sh [rule_format, of 0] by (simp add: q n)
  with r rest wf i show ?thesis
    by (intro conjI exI [of _ node']) (simp_all add: q n)
qed

text \<open>
  The area of the table of contents: from the end of the header to the base of the keys.
\<close>

definition toc_area :: "apfs_node \<Rightarrow> u8 list" where
  "toc_area node = get_bytes node_phys_size (n_key node - node_phys_size) (b_data node)"

lemma toc_area_slot:
  "0 \<le> c \<Longrightarrow> c + 2 \<le> n_key node - node_phys_size \<Longrightarrow>
   rd_le16 (node_phys_size + c) (b_data node) = of_nat (dec_le (get_bytes c 2 (toc_area node)))"
  by (simp add: toc_area_def rd_le16_def get_get layout_defs)

text \<open>
  C6. An insert that fits, then the remove of the entry it made (the query of the
  insert, whatever lengths it carries): the number of records and \<open>bt_key_count\<close> are
  what they were before the insert, \<open>btn_nkeys\<close> is that number of records, and every
  byte of the entries of the table of contents that the node had before the insert is
  what it was. The rest of the area of the table of contents is not restored: the base
  of the keys stays where the insert has put it, also when the insert has extended the
  table of contents, and the slot after the last entry keeps what was left there. The
  value written by the insert is still in the block, below the old \<open>data\<close>, and
  \<open>data\<close> stays below it.
\<close>

theorem insert_then_remove:
  assumes wf: "root_leaf_node sb (q_node query)"
    and args: "insert_args_ok query key key_len val val_len"
    and fit1: "n_free (q_node query) + key_len + val_len \<le> n_data (q_node query)"
    and fit2: "toc_full (q_node query) \<longrightarrow>
        n_free (q_node query) + toc_inc (q_node query) + key_len + val_len \<le> n_data (q_node query)"
  shows "\<exists>node1 node2.
    apfs_btree_insert sb query key key_len val val_len =
      Success (query\<lparr>q_node := node1, q_index := q_index query + 1\<rparr>) \<and>
    apfs_btree_remove sb (query\<lparr>q_node := node1, q_index := q_index query + 1,
                              q_key_len := kl, q_len := vl\<rparr>) =
      Success (query\<lparr>q_node := node2, q_index := q_index query + 1, q_key_len := kl, q_len := vl\<rparr>) \<and>
    n_records node2 = n_records (q_node query) \<and>
    btn_nkeys node2 = word_of_int (n_records (q_node query)) \<and>
    bt_key_count sb node2 = bt_key_count sb (q_node query) \<and>
    get_bytes node_phys_size (n_records (q_node query) * toc_entry_size (q_node query)) (b_data node2) =
      get_bytes node_phys_size (n_records (q_node query) * toc_entry_size (q_node query))
        (b_data (q_node query)) \<and>
    (\<forall>j. 0 \<le> j \<and> j < n_records (q_node query) \<longrightarrow> toc_entry node2 j = toc_entry (q_node query) j) \<and>
    n_key node2 = n_key (q_node query) + toc_growth (q_node query) \<and>
    (\<forall>v. val = Some v \<longrightarrow>
       n_data node2 = n_data (q_node query) - val_len \<and>
       get_bytes (n_data (q_node query) - val_len) val_len (b_data node2) = take (nat val_len) v)"
  using wf args fit1 fit2
proof (cases rule: insert_effects)
  case ins: (eff node1)
  let ?node = "q_node query" and ?idx = "q_index query + 1"
  let ?tes = "toc_entry_size ?node"
  let ?query1 = "query\<lparr>q_node := node1, q_index := ?idx, q_key_len := kl, q_len := vl\<rparr>"
  note ar = insert_arith [OF wf args fit1 fit2]
  have tes: "?tes = 4 \<or> ?tes = 8" by (rule toc_entry_size_cases)
  have te1: "toc_entry_at node1 j = toc_entry_at ?node j" "toc_entry_size node1 = ?tes" for j
    using ins(8) by (simp_all add: toc_entry_at_def toc_entry_size_def)
  have wf1: "root_leaf_node sb (q_node ?query1)" using ins(25) by simp
  have i1: "0 \<le> q_index ?query1" "q_index ?query1 < n_records (q_node ?query1)"
    using ar ins(2) by simp_all
  from wf1 i1 show ?thesis
  proof (cases rule: remove_effects)
    case rem: (eff node2)
    have te2: "toc_entry_at node2 j = toc_entry_at ?node j" "toc_entry_size node2 = ?tes" for j
      using rem(6) ins(8) by (simp_all add: toc_entry_at_def toc_entry_size_def)
    note u1 = ins(10) and u2 = rem(8) [simplified, unfolded te1 ins(2)]
    have m: "0 \<le> (n_records ?node - ?idx) * ?tes" "0 \<le> ?idx * ?tes"
      using ar tes by auto
    have split: "n_records ?node * ?tes = ?idx * ?tes + (n_records ?node - ?idx) * ?tes"
      "node_phys_size + ?idx * ?tes = toc_entry_at ?node ?idx"
      by (simp_all add: toc_entry_at_def algebra_simps)
    have low: "get_bytes node_phys_size (?idx * ?tes) (b_data node2) =
        get_bytes node_phys_size (?idx * ?tes) (b_data ?node)"
    proof -
      have "get_bytes node_phys_size (?idx * ?tes) (b_data node2) =
          get_bytes node_phys_size (?idx * ?tes) (b_data node1)"
        using tes ar(1-12,15) toc_inc_pos [of ?node]
        by (intro untouched_get [OF u2]) (auto simp: toc_entry_at_def info_at_def layout_defs)
      also have "\<dots> = get_bytes node_phys_size (?idx * ?tes) (b_data ?node)"
        using tes ar(1-12,15) toc_inc_pos [of ?node]
        by (intro untouched_get [OF u1]) (auto simp: toc_entry_at_def info_at_def layout_defs)
      finally show ?thesis .
    qed
    have high: "get_bytes (toc_entry_at ?node ?idx) ((n_records ?node - ?idx) * ?tes) (b_data node2) =
        get_bytes (toc_entry_at ?node ?idx) ((n_records ?node - ?idx) * ?tes) (b_data ?node)"
    proof -
      have "get_bytes (toc_entry_at ?node ?idx + 0) ((n_records ?node - ?idx) * ?tes) (b_data node2) =
          get_bytes (toc_entry_at ?node (?idx + 1) + 0) ((n_records ?node - ?idx) * ?tes) (b_data node1)"
        using rem(9) [of 0 "(n_records ?node - ?idx) * ?tes"] m
        by (simp add: te1 ins(2) diff_diff_eq)
      also have "\<dots> = get_bytes (toc_entry_at ?node ?idx + 0) ((n_records ?node - ?idx) * ?tes) (b_data ?node)"
        using ins(11) [of 0 "(n_records ?node - ?idx) * ?tes"] m
        by (simp add: add.assoc)
      finally show ?thesis by simp
    qed
    have toc: "get_bytes node_phys_size (n_records ?node * ?tes) (b_data node2) =
        get_bytes node_phys_size (n_records ?node * ?tes) (b_data ?node)"
      unfolding split(1) using m low high [unfolded toc_entry_at_def]
      by (simp add: get_bytes_append layout_defs)
    have entries: "\<forall>j. 0 \<le> j \<and> j < n_records ?node \<longrightarrow> toc_entry node2 j = toc_entry ?node j"
    proof (intro allI impI)
      fix j assume j: "0 \<le> j \<and> j < n_records ?node"
      have "get_bytes (j * ?tes) ?tes (get_bytes node_phys_size (n_records ?node * ?tes) blk) =
          get_bytes (toc_entry_at ?node j) ?tes blk" for blk
        using j tes by (subst get_get) (auto simp: toc_entry_at_def layout_defs)
      from this [of "b_data node2", symmetric] this [of "b_data ?node", symmetric] toc
      show "toc_entry node2 j = toc_entry ?node j"
        by (simp add: toc_entry_def te2)
    qed
    have vals: "n_data node2 = n_data ?node - val_len \<and>
       get_bytes (n_data ?node - val_len) val_len (b_data node2) = take (nat val_len) v"
      if v: "val = Some v" for v
    proof -
      have "get_bytes (n_data ?node - val_len) val_len (b_data node2) =
          get_bytes (n_data ?node - val_len) val_len (b_data node1)"
        using tes ar(1-12,15) toc_inc_pos [of ?node]
        by (intro untouched_get [OF u2]) (auto simp: toc_entry_at_def info_at_def layout_defs)
      then show ?thesis
        using ins(16) [OF v] rem(5) ins(5) v by (simp add: val_written_def)
    qed
    show ?thesis
      using ins(1) rem(1) rem(2) rem(3) rem(10) rem(11) ins(2) ins(3) ins(21) toc entries vals
      by (intro exI [of _ node1] exI [of _ node2]) (simp add: view_defs)
  qed
qed


theorem insert_then_remove_witness:
  "root_leaf_node empty_sb (q_node one_record_query) \<and>
   insert_args_ok one_record_query (replicate 8 1) 8 (Some (replicate 8 2)) 8 \<and>
   n_free (q_node one_record_query) + 8 + 8 \<le> n_data (q_node one_record_query) \<and>
   \<not> toc_full (q_node one_record_query) \<and>
   (\<exists>node1 node2.
      apfs_btree_insert empty_sb one_record_query (replicate 8 1) 8 (Some (replicate 8 2)) 8 =
        Success (one_record_query\<lparr>q_node := node1, q_index := 0\<rparr>) \<and>
      apfs_btree_remove empty_sb (one_record_query\<lparr>q_node := node1, q_index := 0,
                                     q_key_len := 8, q_len := 8\<rparr>) =
        Success (one_record_query\<lparr>q_node := node2, q_index := 0, q_key_len := 8, q_len := 8\<rparr>) \<and>
      n_records node2 = 1 \<and> btn_nkeys node2 = 1 \<and>
      bt_key_count empty_sb node2 = bt_key_count empty_sb one_record_node \<and>
      toc_entry node2 0 = toc_entry one_record_node 0 \<and>
      n_data node2 = 4040 \<and> get_bytes 4040 8 (b_data node2) = replicate 8 2)"
proof -
  have q: "q_node one_record_query = one_record_node" "q_index one_record_query = - 1"
    by (simp_all add: one_record_query_def empty_query_def)
  have n: "n_records one_record_node = 1" "n_key one_record_node = 88"
    "n_free one_record_node = 96" "n_data one_record_node = 4048"
    "n_has_fixed_kv_size one_record_node"
    by (simp_all add: one_record_node_def empty_node_def)
  have wf: "root_leaf_node empty_sb (q_node one_record_query)"
    using one_record_node_ok by (simp add: q)
  have a: "insert_args_ok one_record_query (replicate 8 1) 8 (Some (replicate 8 2)) 8"
    by (simp add: insert_args_ok_def q n)
  have nf: "\<not> toc_full (q_node one_record_query)"
    by (simp add: toc_full_def toc_entry_size_def q n layout_defs)
  have f1: "n_free (q_node one_record_query) + 8 + 8 \<le> n_data (q_node one_record_query)"
    by (simp add: q n)
  have f2: "toc_full (q_node one_record_query) \<longrightarrow>
      n_free (q_node one_record_query) + toc_inc (q_node one_record_query) + 8 + 8
        \<le> n_data (q_node one_record_query)"
    using nf by simp
  from insert_then_remove [OF wf a f1 f2, of 8 8] obtain node1 node2 where
    r: "apfs_btree_insert empty_sb one_record_query (replicate 8 1) 8 (Some (replicate 8 2)) 8 =
        Success (one_record_query\<lparr>q_node := node1, q_index := q_index one_record_query + 1\<rparr>)"
      "apfs_btree_remove empty_sb (one_record_query\<lparr>q_node := node1,
          q_index := q_index one_record_query + 1, q_key_len := 8, q_len := 8\<rparr>) =
        Success (one_record_query\<lparr>q_node := node2, q_index := q_index one_record_query + 1,
          q_key_len := 8, q_len := 8\<rparr>)"
      "n_records node2 = n_records (q_node one_record_query)"
      "btn_nkeys node2 = word_of_int (n_records (q_node one_record_query))"
      "bt_key_count empty_sb node2 = bt_key_count empty_sb (q_node one_record_query)"
    and en: "\<forall>j. 0 \<le> j \<and> j < n_records (q_node one_record_query) \<longrightarrow>
        toc_entry node2 j = toc_entry (q_node one_record_query) j"
    and vs: "\<forall>v. Some (replicate 8 (2 :: u8)) = Some v \<longrightarrow>
       n_data node2 = n_data (q_node one_record_query) - 8 \<and>
       get_bytes (n_data (q_node one_record_query) - 8) 8 (b_data node2) = take (nat 8) v"
    by blast
  have "toc_entry node2 0 = toc_entry one_record_node 0"
    using en [rule_format, of 0] by (simp add: q n)
  moreover have "n_data node2 = 4040 \<and> get_bytes 4040 8 (b_data node2) = replicate 8 2"
    using vs [rule_format, of "replicate 8 2"] by (simp add: q n)
  ultimately show ?thesis
    using r wf a f1 nf
    by (intro conjI exI [of _ node1] exI [of _ node2]) (simp_all add: q n)
qed

text \<open>
  The area of the table of contents is not restored: in the node of one record, with
  room in the table of contents, the insert after slot 0 and then the remove of the new
  slot 1 leave the key offset 8 in slot 1, where 0 was, though the number of records
  and the base of the keys are what they were.
\<close>

theorem remove_leaves_toc_bytes:
  "(case apfs_btree_insert empty_sb found_query (replicate 8 1) 8 (Some (replicate 8 2)) 8 of
      Success query1 \<Rightarrow>
        (case apfs_btree_remove empty_sb (query1\<lparr>q_key_len := 8, q_len := 8\<rparr>) of
           Success query2 \<Rightarrow>
             n_records (q_node query2) = n_records one_record_node \<and>
             n_key (q_node query2) = 88 \<and> n_key one_record_node = 88 \<and>
             kvoff_k one_record_node 1 = 0 \<and>
             kvoff_k (q_node query2) 1 = 8 \<and>
             toc_area (q_node query2) \<noteq> toc_area one_record_node
         | Failure e query2 \<Rightarrow> False
         | Undefined \<Rightarrow> False)
    | Failure e query1 \<Rightarrow> False
    | Undefined \<Rightarrow> False)"
proof -
  have q: "q_node found_query = one_record_node" "q_index found_query = 0"
    by (simp_all add: found_query_def one_record_query_def empty_query_def)
  have n: "n_records one_record_node = 1" "n_key one_record_node = 88"
    "n_free one_record_node = 96" "n_data one_record_node = 4048"
    "n_has_fixed_kv_size one_record_node" "b_data one_record_node = empty_block"
    by (simp_all add: one_record_node_def empty_node_def)
  have tes: "toc_entry_size one_record_node = 4" "toc_entry_at one_record_node j = 56 + j * 4" for j
    by (simp_all add: toc_entry_size_def toc_entry_at_def n layout_defs)
  have wf: "root_leaf_node empty_sb (q_node found_query)"
    using one_record_node_ok by (simp add: q)
  have a: "insert_args_ok found_query (replicate 8 1) 8 (Some (replicate 8 2)) 8"
    by (simp add: insert_args_ok_def q n)
  have nf: "\<not> toc_full (q_node found_query)"
    by (simp add: toc_full_def q n tes layout_defs)
  have f1: "n_free (q_node found_query) + 8 + 8 \<le> n_data (q_node found_query)"
    by (simp add: q n)
  have f2: "toc_full (q_node found_query) \<longrightarrow>
      n_free (q_node found_query) + toc_inc (q_node found_query) + 8 + 8
        \<le> n_data (q_node found_query)"
    using nf by simp
  from wf a f1 f2 show ?thesis
  proof (cases rule: insert_effects)
    case ins: (eff node1)
    let ?query1 = "found_query\<lparr>q_node := node1, q_index := 1, q_key_len := 8, q_len := 8\<rparr>"
    have g: "toc_growth one_record_node = 0" using nf by (simp add: toc_growth_def q)
    have te1: "toc_entry_at node1 j = 56 + j * 4" "toc_entry_size node1 = 4" for j
      using ins(8) n(5) by (simp_all add: toc_entry_at_def toc_entry_size_def q layout_defs)
    have k1: "rd_le16 60 (b_data node1) = 8" using ins(12) by (simp add: q n tes)
    have n1: "n_records node1 = 2" "n_key node1 = 88"
      using ins(2,3) by (simp_all add: q n g)
    have wf1: "root_leaf_node empty_sb (q_node ?query1)" using ins(25) by simp
    have i1: "0 \<le> q_index ?query1" "q_index ?query1 < n_records (q_node ?query1)"
      by (simp_all add: n1)
    from wf1 i1 show ?thesis
    proof (cases rule: remove_effects)
      case rem: (eff node2)
      note u = rem(8) [simplified, unfolded te1 n1, simplified]
      have k2: "rd_le16 60 (b_data node2) = rd_le16 60 (b_data node1)"
        by (rule untouched_rd(1) [OF u]) (simp_all add: layout_defs info_at_def empty_sb_def)
      have n2: "n_records node2 = 1" "n_key node2 = 88"
        using rem(2,3) by (simp_all add: n1)
      have s2: "rd_le16 60 (b_data node2) = of_nat (dec_le (get_bytes 4 2 (toc_area node2)))"
        using toc_area_slot [of 4 node2] by (simp add: n2 layout_defs)
      have s0: "rd_le16 60 empty_block = of_nat (dec_le (get_bytes 4 2 (toc_area one_record_node)))"
        using toc_area_slot [of 4 one_record_node] by (simp add: n layout_defs)
      have ne: "toc_area node2 \<noteq> toc_area one_record_node"
      proof
        assume "toc_area node2 = toc_area one_record_node"
        then have "rd_le16 60 (b_data node2) = rd_le16 60 empty_block" using s2 s0 by simp
        then show False using k2 k1 by (simp add: empty_block_zero)
      qed
      have r1: "apfs_btree_insert empty_sb found_query (replicate 8 1) 8 (Some (replicate 8 2)) 8 =
          Success (found_query\<lparr>q_node := node1, q_index := 1\<rparr>)"
        using ins(1) by (simp add: q)
      have r2: "apfs_btree_remove empty_sb
          ((found_query\<lparr>q_node := node1, q_index := 1\<rparr>)\<lparr>q_key_len := 8, q_len := 8\<rparr>) =
          Success (?query1\<lparr>q_node := node2\<rparr>)"
        using rem(1) by simp
      show ?thesis
        unfolding r1 outcome.case r2
        using ne k2 k1 n2 by (simp add: n kvoff_k_def tes te1 toc_entry_at_def toc_entry_size_def
            rem(6) ins(8) q layout_defs empty_block_zero)
    qed
  qed
qed

section \<open>Queries\<close>

text \<open>
  What the query calls in node.c and object.c is a parameter of the model: the query of
  one node (\<open>apfs_node_query\<close>), the reading of a node from its block
  number (\<open>apfs_read_node\<close>), the block that \<open>apfs_read_object_block\<close> hands out for
  writing, the root of the object map (\<open>sbi->s_omap_root\<close>), whether \<open>kmalloc\<close>
  succeeds, and the place of \<open>ov_paddr\<close> in \<open>struct apfs_omap_val\<close> with the size of
  that structure.

  Modelled from the spec: the interface of the node query (sections 3 and 4.3). It sets
  the index of the query and the offsets and lengths of the key and of the value, it can
  raise the flags \<open>done\<close> and \<open>next\<close>, and it returns 0, the signal to go back up
  (\<open>-EAGAIN\<close>) or another error. Its result depends on the query it is given, with the
  node, the key and the flags.
\<close>

record cursor =
  c_index :: int
  c_key_off :: int
  c_key_len :: int
  c_off :: int
  c_len :: int
  c_done :: bool
  c_next :: bool

record env =
  node_query :: "apfs_query \<Rightarrow> error option \<times> cursor"
  read_node :: "u64 \<Rightarrow> error + apfs_node"
  read_object_block :: "u64 \<Rightarrow> error + u64"
  omap_root :: apfs_node
  kmalloc_ok :: bool
  ov_paddr_in :: int
  omap_val_size :: int

datatype message =
    Alert_btree_corrupted
  | Alert_bad_index_block u64
  | Alert_bad_omap_leaf u64
  | Debug_corrupt_btree

datatype 'a result = Ok 'a | Err error | Fault

definition apfs_node_query :: "env \<Rightarrow> apfs_query \<Rightarrow> error option \<times> apfs_query" where
  "apfs_node_query env query =
     (let (err, c) = node_query env query
      in (err, query\<lparr>q_index := c_index c, q_key_off := c_key_off c, q_key_len := c_key_len c,
                  q_off := c_off c, q_len := c_len c,
                  q_flags := q_flags query \<union> (if c_done c then {APFS_QUERY_DONE} else {})
                               \<union> (if c_next c then {APFS_QUERY_NEXT} else {})\<rparr>))"

text \<open>
  \<open>apfs_child_from_query\<close>: the child id of a record of a nonleaf node. The 8 bytes are
  read at \<open>query->off\<close>, wherever the node query has put it.
\<close>

definition apfs_child_from_query :: "apfs_query \<Rightarrow> u64 result" where
  "apfs_child_from_query query =
     (let raw = b_data (q_node query) in
      if q_len query \<noteq> 8 then Err EFSCORRUPTED
      else if \<not> in_block (q_off query) 8 raw then Fault
      else Ok (rd_le64 (q_off query) raw))"

text \<open>
  \<open>apfs_alloc_query\<close>, once \<open>kmalloc\<close> has succeeded. The fields that the node query
  sets are not initialised by the C code; they are 0 here. The reference counts of the
  nodes are left out.
\<close>

definition apfs_alloc_query :: "apfs_node \<Rightarrow> apfs_query option \<Rightarrow> apfs_query" where
  "apfs_alloc_query node parent =
     \<lparr>q_node = node,
      q_key = (case parent of Some p \<Rightarrow> q_key p | None \<Rightarrow> None),
      q_flags = (case parent of
                   Some p \<Rightarrow> q_flags p - {APFS_QUERY_DONE, APFS_QUERY_NEXT} | None \<Rightarrow> {}),
      q_index = n_records node,
      q_key_off = 0, q_key_len = 0, q_off = 0, q_len = 0,
      q_depth = (case parent of Some p \<Rightarrow> q_depth p + 1 | None \<Rightarrow> 0)\<rparr>"

text \<open>
  One pass from the label \<open>next_node\<close> of \<open>apfs_btree_query\<close> to the next \<open>goto\<close> or
  \<open>return\<close>; \<open>btree_descend\<close> is its second half, from the child id on. The state is the query, its ancestors (the chain of \<open>parent\<close> pointers)
  and the messages logged so far. \<open>lookup\<close> is the translation of a child id by the
  object map, for a tree that is not the object map itself; it is \<open>None\<close> when it has
  not returned. A failed allocation of the child query is dereferenced at \<open>next_node\<close>.
\<close>

type_synonym qstate = "apfs_query \<times> apfs_query list \<times> message list"

datatype step =
    Done "qstate outcome"
  | Ascend apfs_query "apfs_query list" "message list"
  | Descend apfs_query "apfs_query list" "message list"
  | Stuck

definition btree_descend ::
  "env \<Rightarrow> (u64 \<Rightarrow> message list \<Rightarrow> (u64 result \<times> message list) option) \<Rightarrow>
   apfs_query \<Rightarrow> apfs_query list \<Rightarrow> message list \<Rightarrow> u64 \<Rightarrow> step" where
  "btree_descend env lookup query parents log child_id =
     (case (if APFS_QUERY_OMAP \<in> q_flags query then Some (Ok child_id, log)
            else lookup child_id log) of
        None \<Rightarrow> Stuck
      | Some (Fault, log1) \<Rightarrow> Done Undefined
      | Some (Err e, log1) \<Rightarrow> Done (Failure e (query, parents, log1))
      | Some (Ok child_blk, log1) \<Rightarrow>
        (case read_node env child_blk of
           Inl e \<Rightarrow> Done (Failure e (query, parents, log1))
         | Inr node \<Rightarrow>
             let log2 = (if n_oid node \<noteq> child_id then log1 @ [Debug_corrupt_btree] else log1)
             in if APFS_QUERY_MULTIPLE \<in> q_flags query then
                  (if kmalloc_ok env
                   then Descend (apfs_alloc_query node (Some query)) (query # parents) log2
                   else Done Undefined)
                else Descend (query\<lparr>q_node := node, q_index := n_records node,
                               q_depth := q_depth query + 1\<rparr>) parents log2))"

definition btree_step ::
  "env \<Rightarrow> (u64 \<Rightarrow> message list \<Rightarrow> (u64 result \<times> message list) option) \<Rightarrow>
   apfs_query \<Rightarrow> apfs_query list \<Rightarrow> message list \<Rightarrow> step" where
  "btree_step env lookup query parents log =
     (if q_depth query \<ge> 12
      then Done (Failure EFSCORRUPTED (query, parents, log @ [Alert_btree_corrupted]))
      else
        case apfs_node_query env query of (err, query1) \<Rightarrow>
        if err = Some EAGAIN then
          (case parents of
             [] \<Rightarrow> Done (Failure ENODATA (query1, [], log))
           | parent # ancestors \<Rightarrow> Ascend parent ancestors log)
        else case err of
          Some e \<Rightarrow> Done (Failure e (query1, parents, log))
        | None \<Rightarrow>
          if n_is_leaf (q_node query1) then Done (Success (query1, parents, log))
          else case apfs_child_from_query query1 of
            Fault \<Rightarrow> Done Undefined
          | Err e \<Rightarrow>
              Done (Failure e (query1, parents,
                log @ [Alert_bad_index_block (n_block_nr (q_node query1))]))
          | Ok child_id \<Rightarrow> btree_descend env lookup query1 parents log child_id)"

text \<open>
  The loop of \<open>apfs_btree_query\<close>, with the number of passes it may take; \<open>None\<close> when
  they do not suffice. It counts the descents and the ascents it has made.
\<close>

fun btree_run ::
  "env \<Rightarrow> (u64 \<Rightarrow> message list \<Rightarrow> (u64 result \<times> message list) option) \<Rightarrow> nat \<Rightarrow>
   apfs_query \<Rightarrow> apfs_query list \<Rightarrow> message list \<Rightarrow> (nat \<times> nat \<times> qstate outcome) option" where
  "btree_run env lookup 0 query parents log = None"
| "btree_run env lookup (Suc n) query parents log =
     (case btree_step env lookup query parents log of
        Done r \<Rightarrow> Some (0, 0, r)
      | Ascend query' parents' log' \<Rightarrow>
          map_option (\<lambda>(d, a, r). (d, Suc a, r)) (btree_run env lookup n query' parents' log')
      | Descend query' parents' log' \<Rightarrow>
          map_option (\<lambda>(d, a, r). (Suc d, a, r)) (btree_run env lookup n query' parents' log')
      | Stuck \<Rightarrow> None)"

text \<open>\<open>apfs_init_omap_key\<close> (key.h).\<close>

definition apfs_init_omap_key :: "u64 \<Rightarrow> u64 \<Rightarrow> apfs_key" where
  "apfs_init_omap_key oid xid = \<lparr>k_id = oid, k_number = xid, k_name = None, k_type = 0\<rparr>"

text \<open>
  Modelled from the spec: \<open>apfs_bno_from_query\<close> of node.c (section 4.5, step 3): the
  physical address is read from the value of the leaf record, and a
  value of another length than \<open>struct apfs_omap_val\<close> is \<open>corrupted\<close>.
\<close>

definition apfs_bno_from_query :: "env \<Rightarrow> apfs_query \<Rightarrow> u64 result" where
  "apfs_bno_from_query env query =
     (let raw = b_data (q_node query) in
      if q_len query \<noteq> omap_val_size env then Err EFSCORRUPTED
      else if \<not> in_block (q_off query + ov_paddr_in env) 8 raw then Fault
      else Ok (rd_le64 (q_off query + ov_paddr_in env) raw))"

text \<open>
  \<open>apfs_omap_lookup_block\<close>. The result carries the block number found, the node at which
  the query ended, as the call has left it, and the log. The query on the object map has
  the flag \<open>APFS_QUERY_OMAP\<close>, so that its child ids are block numbers and no further
  lookup is made. \<open>ok_xid\<close> is the second field of \<open>struct apfs_omap_key\<close> (key.h).
\<close>

datatype lookup_result =
    Found u64 apfs_node "message list"
  | Lookup_failed error apfs_node "message list"
  | Lookup_undefined

definition ok_xid_in :: int where "ok_xid_in = 8"

definition omap_write :: "env \<Rightarrow> super_block \<Rightarrow> apfs_query \<Rightarrow> u64 \<Rightarrow> message list \<Rightarrow> lookup_result" where
  "omap_write env sb query block log =
     (let node = q_node query; node_raw = b_data node in
      if \<not> (n_is_root node \<and> n_is_leaf node) then Lookup_undefined
      else if \<not> in_block o_xid_at 8 node_raw then Lookup_undefined
      else if s_xid sb \<noteq> rd_le64 o_xid_at node_raw then Lookup_undefined
      else case read_object_block env block of
        Inl e \<Rightarrow> Lookup_failed e node log
      | Inr new_blocknr \<Rightarrow>
          if \<not> in_block (q_key_off query + ok_xid_in) 8 node_raw then Lookup_undefined
          else
            let raw1 = wr_le64 (q_key_off query + ok_xid_in) (s_xid sb) node_raw in
            if \<not> in_block (q_off query + ov_paddr_in env) 8 raw1 then Lookup_undefined
            else
              let raw2 = wr_le64 (q_off query + ov_paddr_in env) new_blocknr raw1
              in Found new_blocknr (node\<lparr>b_data := raw2, b_csum := True, b_dirty := True\<rparr>) log)"

definition apfs_omap_lookup_block ::
  "env \<Rightarrow> super_block \<Rightarrow> nat \<Rightarrow> apfs_node \<Rightarrow> u64 \<Rightarrow> bool \<Rightarrow> message list \<Rightarrow> lookup_result option" where
  "apfs_omap_lookup_block env sb fuel tbl oid write log =
     (if \<not> kmalloc_ok env then Some (Lookup_failed ENOMEM tbl log)
      else
        let query = (apfs_alloc_query tbl None)
              \<lparr>q_key := Some (apfs_init_omap_key oid (s_xid sb)), q_flags := {APFS_QUERY_OMAP}\<rparr>
        in case btree_run env (\<lambda>child_id log'. None) fuel query [] log of
          None \<Rightarrow> None
        | Some (d, a, Undefined) \<Rightarrow> Some Lookup_undefined
        | Some (d, a, Failure e (query1, ps, log1)) \<Rightarrow> Some (Lookup_failed e (q_node query1) log1)
        | Some (d, a, Success (query1, ps, log1)) \<Rightarrow>
            (case apfs_bno_from_query env query1 of
               Fault \<Rightarrow> Some Lookup_undefined
             | Err e \<Rightarrow>
                 Some (Lookup_failed e (q_node query1)
                   (log1 @ [Alert_bad_omap_leaf (n_block_nr (q_node query1))]))
             | Ok block \<Rightarrow>
                 if write then Some (omap_write env sb query1 block log1)
                 else Some (Found block (q_node query1) log1)))"

text \<open>The translation of a child id for a tree that is not the object map (lines 231-234).\<close>

definition omap_translate ::
  "env \<Rightarrow> super_block \<Rightarrow> nat \<Rightarrow> u64 \<Rightarrow> message list \<Rightarrow> (u64 result \<times> message list) option" where
  "omap_translate env sb fuel child_id log =
     (case apfs_omap_lookup_block env sb fuel (omap_root env) child_id False log of
        None \<Rightarrow> None
      | Some (Found child_blk node log1) \<Rightarrow> Some (Ok child_blk, log1)
      | Some (Lookup_failed e node log1) \<Rightarrow> Some (Err e, log1)
      | Some Lookup_undefined \<Rightarrow> Some (Fault, log))"

definition apfs_btree_query ::
  "env \<Rightarrow> super_block \<Rightarrow> nat \<Rightarrow> apfs_query \<Rightarrow> apfs_query list \<Rightarrow> message list \<Rightarrow>
   qstate outcome option" where
  "apfs_btree_query env sb fuel query parents log =
     map_option (\<lambda>(d, a, r). r)
       (btree_run env (omap_translate env sb fuel) fuel query parents log)"

lemma node_query_flags:
  "apfs_node_query env q = (err, q1) \<Longrightarrow>
     q_flags q \<subseteq> q_flags q1 \<and> q_flags q1 \<subseteq> q_flags q \<union> {APFS_QUERY_DONE, APFS_QUERY_NEXT} \<and>
     q_depth q1 = q_depth q \<and> q_node q1 = q_node q \<and> q_key q1 = q_key q \<and>
     err = fst (node_query env q)"
  by (auto simp: apfs_node_query_def split: prod.splits if_splits)

definition lookup_ok ::
  "(u64 \<Rightarrow> message list \<Rightarrow> (u64 result \<times> message list) option) \<Rightarrow> apfs_query \<Rightarrow> bool" where
  "lookup_ok lookup q \<longleftrightarrow> APFS_QUERY_OMAP \<in> q_flags q \<or> (\<forall>c l. lookup c l \<noteq> None)"

lemma descend_cases:
  assumes "btree_descend env lookup q1 ps log c = s"
  obtains (finished) r where "s = Done r"
  | (stuck) "s = Stuck" "APFS_QUERY_OMAP \<notin> q_flags q1" "\<exists>c l. lookup c l = None"
  | (multi) node log' where "s = Descend (apfs_alloc_query node (Some q1)) (q1 # ps) log'"
      "APFS_QUERY_MULTIPLE \<in> q_flags q1"
  | (single) node log' where
      "s = Descend (q1\<lparr>q_node := node, q_index := n_records node, q_depth := q_depth q1 + 1\<rparr>) ps log'"
      "APFS_QUERY_MULTIPLE \<notin> q_flags q1"
  using assms unfolding btree_descend_def
  by (auto simp: Let_def split: option.splits result.splits sum.splits if_splits prod.splits)

lemma step_cases:
  assumes "btree_step env lookup q ps log = s"
  obtains (finished) r where "s = Done r"
  | (stuck) "s = Stuck" "APFS_QUERY_OMAP \<notin> q_flags q" "\<exists>c l. lookup c l = None"
  | (ascend) p ps' where "s = Ascend p ps' log" "ps = p # ps'"
      "fst (node_query env q) = Some EAGAIN"
  | (descend) q' ps' log' where "s = Descend q' ps' log'" "q_depth q < 12"
      "q_depth q' = q_depth q + 1"
      "APFS_QUERY_MULTIPLE \<in> q_flags q' \<longrightarrow> APFS_QUERY_NEXT \<notin> q_flags q'"
      "APFS_QUERY_MULTIPLE \<in> q_flags q' \<longleftrightarrow> APFS_QUERY_MULTIPLE \<in> q_flags q"
      "APFS_QUERY_OMAP \<in> q_flags q' \<longleftrightarrow> APFS_QUERY_OMAP \<in> q_flags q"
      "APFS_QUERY_MULTIPLE \<notin> q_flags q \<longrightarrow> ps' = ps"
proof (cases "q_depth q \<ge> 12")
  case True
  then show ?thesis using assms that(1) by (auto simp: btree_step_def)
next
  case False
  obtain err q1 where nq: "apfs_node_query env q = (err, q1)" by (cases "apfs_node_query env q")
  note f = node_query_flags [OF nq]
  show ?thesis
  proof (cases "err = Some EAGAIN")
    case True
    then show ?thesis using assms False nq f that(1) ascend
      by (cases ps) (auto simp: btree_step_def)
  next
    case ne: False
    show ?thesis
    proof (cases "\<exists>c. err = None \<and> \<not> n_is_leaf (q_node q1) \<and> apfs_child_from_query q1 = Ok c")
      case True
      then obtain c where c: "err = None" "\<not> n_is_leaf (q_node q1)" "apfs_child_from_query q1 = Ok c"
        by blast
      then have s: "btree_descend env lookup q1 ps log c = s"
        using assms False nq by (simp add: btree_step_def)
      show ?thesis using s
      proof (cases rule: descend_cases)
        case (finished r) then show ?thesis using that(1) by blast
      next
        case stuck then show ?thesis using that(2) f by blast
      next
        case (multi node log')
        show ?thesis
          by (rule that(4) [OF multi(1)])
            (use False f multi(2) in \<open>auto simp: apfs_alloc_query_def\<close>)
      next
        case (single node log')
        show ?thesis
          by (rule that(4) [OF single(1)])
            (use False f single(2) in \<open>auto\<close>)
      qed
    next
      case False
      then have "\<exists>r. s = Done r"
        using assms \<open>\<not> 12 \<le> q_depth q\<close> nq ne
        by (auto simp: btree_step_def split: option.splits result.splits)
      then show ?thesis using that(1) by blast
    qed
  qed
qed

lemma descents_only:
  assumes "APFS_QUERY_MULTIPLE \<notin> q_flags q" and "lookup_ok lookup q"
    and "12 - q_depth q \<le> int k"
  shows "\<exists>d r. btree_run env lookup (Suc k) q [] log = Some (d, 0, r) \<and>
           int d \<le> max 0 (12 - q_depth q)"
  using assms
proof (induction k arbitrary: q log)
  case 0
  then have "q_depth q \<ge> 12" by simp
  then show ?case by (simp add: btree_step_def)
next
  case (Suc k)
  obtain s where s: "btree_step env lookup q [] log = s" by simp
  show ?case using s
  proof (cases rule: step_cases)
    case (finished r)
    then show ?thesis using s by simp
  next
    case stuck
    show ?thesis using stuck(2,3) Suc.prems(2) unfolding lookup_ok_def by blast
  next
    case (ascend p ps')
    then show ?thesis by simp
  next
    case (descend q' ps' log')
    have e: "ps' = []" using Suc.prems(1) descend(7) by simp
    have na: "APFS_QUERY_MULTIPLE \<notin> q_flags q'"
      using Suc.prems(1) descend(5) by simp
    have lk: "lookup_ok lookup q'"
      using Suc.prems(2) descend(6) by (simp add: lookup_ok_def)
    have "12 - q_depth q' \<le> int k" using Suc.prems(3) descend(3) by simp
    from Suc.IH [OF na lk this, where log = log'] obtain d r where
      r: "btree_run env lookup (Suc k) q' [] log' = Some (d, 0, r)"
        "int d \<le> max 0 (12 - q_depth q')" by blast
    have "int (Suc d) \<le> max 0 (12 - q_depth q)" using r(2) descend(2,3) by simp
    then show ?thesis using s descend(1) r(1) e
      by (simp del: btree_run.simps(2) add: btree_run.simps(2) [of _ _ "Suc k"])
  qed
qed

lemma single_query_returns:
  assumes "APFS_QUERY_MULTIPLE \<notin> q_flags q" and "lookup_ok lookup q"
    and "0 \<le> q_depth q" and "13 \<le> n"
  shows "\<exists>d r. btree_run env lookup n q [] log = Some (d, 0, r) \<and> d \<le> 12"
proof -
  obtain k where n: "n = Suc k" and k: "12 \<le> k" using assms(4) by (cases n) auto
  have "12 - q_depth q \<le> int k" using assms(3) k by simp
  from descents_only [OF assms(1,2) this, where log = log] obtain d r where
    r: "btree_run env lookup (Suc k) q [] log = Some (d, 0, r)" "int d \<le> max 0 (12 - q_depth q)"
    by blast
  have "d \<le> 12" using r(2) assms(3) by simp
  then show ?thesis using r(1) n by blast
qed

lemma omap_lookup_returns:
  assumes "13 \<le> fuel"
  shows "apfs_omap_lookup_block env sb fuel tbl oid write log \<noteq> None"
proof (cases "kmalloc_ok env")
  case False
  then show ?thesis by (simp add: apfs_omap_lookup_block_def)
next
  case True
  let ?q = "(apfs_alloc_query tbl None)
              \<lparr>q_key := Some (apfs_init_omap_key oid (s_xid sb)), q_flags := {APFS_QUERY_OMAP}\<rparr>"
  have "\<exists>d r. btree_run env (\<lambda>child_id log'. None) fuel ?q [] log = Some (d, 0, r) \<and> d \<le> 12"
    by (rule single_query_returns) (use assms in \<open>simp_all add: lookup_ok_def apfs_alloc_query_def\<close>)
  then obtain d r where "btree_run env (\<lambda>child_id log'. None) fuel ?q [] log = Some (d, 0, r)"
    by blast
  then show ?thesis using True
    by (simp add: apfs_omap_lookup_block_def Let_def split: outcome.splits result.splits prod.splits)
qed

lemma omap_translate_returns:
  "13 \<le> fuel \<Longrightarrow> omap_translate env sb fuel c l \<noteq> None"
  using omap_lookup_returns [of fuel env sb "omap_root env" c False l]
  by (auto simp: omap_translate_def split: option.splits lookup_result.splits)

subsection \<open>The chain of a query started at the root\<close>

text \<open>
  The states of the loop that a query started at the root of a tree passes through:
  from a pass that goes up or down, the state of the next pass.
\<close>

inductive reaches ::
  "env \<Rightarrow> (u64 \<Rightarrow> message list \<Rightarrow> (u64 result \<times> message list) option) \<Rightarrow> qstate \<Rightarrow> qstate \<Rightarrow> bool"
  for env lookup start where
    start: "reaches env lookup start start"
  | ascend: "reaches env lookup start (query, parents, log) \<Longrightarrow>
       btree_step env lookup query parents log = Ascend query' parents' log' \<Longrightarrow>
       reaches env lookup start (query', parents', log')"
  | descend: "reaches env lookup start (query, parents, log) \<Longrightarrow>
       btree_step env lookup query parents log = Descend query' parents' log' \<Longrightarrow>
       reaches env lookup start (query', parents', log')"

text \<open>
  The chain of a multiple query: each query is one level below its parent, and the last
  one is at depth 0 on the root.
\<close>

fun chain_ok :: "apfs_node \<Rightarrow> apfs_query \<Rightarrow> apfs_query list \<Rightarrow> bool" where
  "chain_ok root query [] \<longleftrightarrow> q_depth query = 0 \<and> q_node query = root"
| "chain_ok root query (parent # ancestors) \<longleftrightarrow>
     q_depth query = q_depth parent + 1 \<and> APFS_QUERY_MULTIPLE \<in> q_flags parent \<and>
     chain_ok root parent ancestors"

lemma chain_ok_depth: "chain_ok root q ps \<Longrightarrow> q_depth q = int (length ps)"
  by (induction ps arbitrary: q) auto

lemma chain_ok_cong:
  "chain_ok root q ps \<Longrightarrow> q_depth q' = q_depth q \<Longrightarrow> q_node q' = q_node q \<Longrightarrow>
   chain_ok root q' ps"
  by (cases ps) auto

lemma descend_shape:
  assumes "btree_step env lookup q ps log = Descend q' ps' log'"
  obtains (multi) q1 node where "APFS_QUERY_MULTIPLE \<in> q_flags q1"
      "q' = apfs_alloc_query node (Some q1)" "ps' = q1 # ps"
      "q_depth q1 = q_depth q" "q_node q1 = q_node q"
      "APFS_QUERY_MULTIPLE \<in> q_flags q"
  | (single) q1 node where "APFS_QUERY_MULTIPLE \<notin> q_flags q1"
      "q' = q1\<lparr>q_node := node, q_index := n_records node, q_depth := q_depth q1 + 1\<rparr>" "ps' = ps"
      "q_depth q1 = q_depth q" "APFS_QUERY_MULTIPLE \<notin> q_flags q"
proof -
  obtain err q1 where nq: "apfs_node_query env q = (err, q1)" by (cases "apfs_node_query env q")
  note f = node_query_flags [OF nq]
  obtain c where s: "btree_descend env lookup q1 ps log c = Descend q' ps' log'"
    using assms nq
    by (auto simp: btree_step_def split: if_splits list.splits option.splits result.splits)
  from s show ?thesis
  proof (cases rule: descend_cases)
    case (multi node l)
    then show ?thesis using that(1) [of q1 node] f by auto
  next
    case (single node l)
    then show ?thesis using that(2) [of q1 node] f by auto
  qed simp_all
qed

lemma reaches_chain:
  assumes "reaches env lookup (q0, [], l0) s" and "q_depth q0 = 0"
  shows "case s of (q, ps, l) \<Rightarrow>
           (APFS_QUERY_MULTIPLE \<in> q_flags q \<longleftrightarrow> APFS_QUERY_MULTIPLE \<in> q_flags q0) \<and>
           (if APFS_QUERY_MULTIPLE \<in> q_flags q0 then chain_ok (q_node q0) q ps else ps = [])"
  using assms
proof (induction rule: reaches.induct)
  case start
  then show ?case by simp
next
  case (ascend query parents log query' parents' log')
  from ascend(2) show ?case
  proof (cases rule: step_cases)
    case (ascend p ps'')
    then show ?thesis using ascend.IH ascend.prems by (auto split: if_splits)
  qed simp_all
next
  case (descend query parents log query' parents' log')
  from descend(2) show ?case
  proof (cases rule: descend_shape)
    case (multi q1 node)
    have m: "APFS_QUERY_MULTIPLE \<in> q_flags q0" "chain_ok (q_node q0) query parents"
      using descend.IH descend.prems multi(1,6)
      by (auto split: if_splits)
    have "chain_ok (q_node q0) q1 parents"
      using m(2) multi(4,5) by (rule chain_ok_cong)
    then show ?thesis using multi m(1) by (simp add: apfs_alloc_query_def)
  next
    case (single q1 node)
    then show ?thesis using descend.IH descend.prems by (auto split: if_splits)
  qed
qed

subsection \<open>The passes of a multiple query\<close>

text \<open>
  Modelled from the spec: the contract of the node query for its index (section 4.3).
  The search goes from the index of the query to the left, so that a record it finds is
  at a slot from 0 up to, and not including, the index on entry; a repeated call moves
  on from there.
\<close>

definition node_query_advances :: "env \<Rightarrow> bool" where
  "node_query_advances env \<longleftrightarrow>
     (\<forall>q c. node_query env q = (None, c) \<longrightarrow> 0 \<le> c_index c \<and> c_index c < q_index q)"

text \<open>No node that is read has more than \<open>R\<close> records.\<close>

definition records_bounded :: "env \<Rightarrow> nat \<Rightarrow> bool" where
  "records_bounded env R \<longleftrightarrow> (\<forall>blk node. read_node env blk = Inr node \<longrightarrow> n_records node \<le> int R)"

text \<open>
  A bound on the passes that are left: each query of the chain counts for the slots to
  the left of its index, each with the subtrees of at most 12 levels that may hang below.
\<close>

definition weight :: "nat \<Rightarrow> int \<Rightarrow> nat" where
  "weight R d = (R + 2) ^ nat (12 - d)"

fun potential :: "nat \<Rightarrow> apfs_query list \<Rightarrow> nat" where
  "potential R [] = 0"
| "potential R (q # qs) = 1 + nat (q_index q) * weight R (q_depth q) + potential R qs"

lemma weight_step: "d < 12 \<Longrightarrow> weight R d = (R + 2) * weight R (d + 1)"
proof -
  assume "d < 12"
  then have "nat (12 - d) = Suc (nat (12 - (d + 1)))" by simp
  then show ?thesis by (simp add: weight_def)
qed

lemma weight_pos: "1 \<le> weight R d"
  by (simp add: weight_def)

lemma potential_descent:
  assumes "d < 12" and "i1 + 1 \<le> i" and "r \<le> R"
  shows "r * weight R (d + 1) + i1 * weight R d + 2 \<le> i * weight R d"
proof -
  let ?w = "weight R (d + 1)"
  have w: "1 \<le> ?w" by (rule weight_pos)
  have W: "weight R d = R * ?w + 2 * ?w" using weight_step [OF assms(1)] by (simp add: algebra_simps)
  have a: "r * ?w \<le> R * ?w" using assms(3) by simp
  have "(i1 + 1) * weight R d \<le> i * weight R d" using assms(2) by (rule mult_le_mono1)
  then have "i1 * weight R d + (R * ?w + 2 * ?w) \<le> i * weight R d"
    using W by (simp add: algebra_simps)
  then show ?thesis using a w by linarith
qed

lemma descend_index:
  assumes "btree_step env lookup q ps log = Descend q' ps' log'"
    and "node_query_advances env" and "records_bounded env R"
  shows "q_depth q < 12 \<and> potential R (q' # ps') + 1 \<le> potential R (q # ps)"
proof -
  have d: "q_depth q < 12" using assms(1) by (auto simp: btree_step_def split: if_splits)
  obtain err q1 where nq: "apfs_node_query env q = (err, q1)" by (cases "apfs_node_query env q")
  note f = node_query_flags [OF nq]
  obtain c where c: "err = None" "btree_descend env lookup q1 ps log c = Descend q' ps' log'"
    using assms(1) nq
    by (auto simp: btree_step_def split: if_splits list.splits option.splits result.splits)
  obtain cur where cur: "node_query env q = (None, cur)" "q_index q1 = c_index cur"
    using nq c(1) by (auto simp: apfs_node_query_def split: prod.splits)
  have i: "0 \<le> q_index q1" "q_index q1 < q_index q"
    using assms(2) cur by (auto simp: node_query_advances_def)
  then have i': "nat (q_index q1) + 1 \<le> nat (q_index q)" by simp
  obtain node where n: "n_records node \<le> int R"
    "(q' = apfs_alloc_query node (Some q1) \<and> ps' = q1 # ps) \<or>
     (q' = q1\<lparr>q_node := node, q_index := n_records node, q_depth := q_depth q1 + 1\<rparr> \<and> ps' = ps)"
    using c(2) assms(3) unfolding btree_descend_def records_bounded_def
    by (auto simp: Let_def split: option.splits result.splits sum.splits if_splits prod.splits)
  have r: "nat (n_records node) \<le> R" using n(1) by simp
  have p: "nat (n_records node) * weight R (q_depth q + 1) + nat (q_index q1) * weight R (q_depth q)
      + 2 \<le> nat (q_index q) * weight R (q_depth q)"
    by (rule potential_descent [OF d i' r])
  from n(2) have "potential R (q' # ps') + 1 \<le> potential R (q # ps)"
  proof
    assume "q' = apfs_alloc_query node (Some q1) \<and> ps' = q1 # ps"
    then show ?thesis using p f by (simp add: apfs_alloc_query_def)
  next
    assume "q' = q1\<lparr>q_node := node, q_index := n_records node, q_depth := q_depth q1 + 1\<rparr> \<and> ps' = ps"
    then show ?thesis using p f by simp
  qed
  then show ?thesis using d by simp
qed

lemma run_within_potential:
  assumes "node_query_advances env" and "records_bounded env R" and "\<forall>c l. lookup c l \<noteq> None"
  shows "potential R (q # ps) \<le> n \<Longrightarrow> \<exists>d a r. btree_run env lookup n q ps log = Some (d, a, r)"
proof (induction n arbitrary: q ps log)
  case 0
  then show ?case by simp
next
  case (Suc n)
  obtain s where s: "btree_step env lookup q ps log = s" by simp
  show ?case using s
  proof (cases rule: step_cases)
    case (finished r)
    then show ?thesis using s by simp
  next
    case stuck
    show ?thesis using stuck(3) assms(3) by blast
  next
    case (ascend p ps')
    have "potential R (p # ps') \<le> n" using Suc.prems ascend(2) by simp
    from Suc.IH [OF this, of log] obtain d a r where
      "btree_run env lookup n p ps' log = Some (d, a, r)" by blast
    then show ?thesis using s ascend(1) by simp
  next
    case (descend q' ps' log')
    have "potential R (q' # ps') + 1 \<le> potential R (q # ps)"
      using descend_index [OF _ assms(1,2)] s descend(1) by blast
    then have "potential R (q' # ps') \<le> n" using Suc.prems by simp
    from Suc.IH [OF this, of log'] obtain d a r where
      "btree_run env lookup n q' ps' log' = Some (d, a, r)" by blast
    then show ?thesis using s descend(1) by simp
  qed
qed

subsection \<open>The lookup in a leaf\<close>

definition omap_query :: "super_block \<Rightarrow> apfs_node \<Rightarrow> u64 \<Rightarrow> apfs_query" where
  "omap_query sb tbl oid = (apfs_alloc_query tbl None)
     \<lparr>q_key := Some (apfs_init_omap_key oid (s_xid sb)), q_flags := {APFS_QUERY_OMAP}\<rparr>"

lemma omap_lookup_leaf:
  assumes "kmalloc_ok env" and "n_is_leaf tbl"
    and "apfs_node_query env (omap_query sb tbl oid) = (None, found)"
  shows "apfs_omap_lookup_block env sb (Suc n) tbl oid write log =
     (case apfs_bno_from_query env found of
        Fault \<Rightarrow> Some Lookup_undefined
      | Err e \<Rightarrow> Some (Lookup_failed e tbl (log @ [Alert_bad_omap_leaf (n_block_nr tbl)]))
      | Ok block \<Rightarrow> if write then Some (omap_write env sb found block log)
                    else Some (Found block tbl log))"
proof -
  have n: "q_node found = tbl" "q_depth found = 0"
    using node_query_flags [OF assms(3)] by (simp_all add: omap_query_def apfs_alloc_query_def)
  have "btree_step env (\<lambda>child_id log'. None) (omap_query sb tbl oid) [] log =
      Done (Success (found, [], log))"
    using assms n by (simp add: btree_step_def) (simp add: omap_query_def apfs_alloc_query_def)
  then show ?thesis using assms(1) n
    by (simp add: apfs_omap_lookup_block_def omap_query_def [symmetric] split: result.splits)
qed

subsection \<open>The node query of the object map\<close>

text \<open>
  Modelled from the spec: the view of the slots of a node with entries of fixed size
  (sections 4.1 and 6). The key offset of an entry is relative to the base of the keys;
  its value offset is counted back from the end of the block, or in a root from the
  tree info at the end of the block.
\<close>

definition slot_key_off :: "apfs_node \<Rightarrow> int \<Rightarrow> int" where
  "slot_key_off node i = n_key node + uint (kvoff_k node i)"

definition slot_val_off :: "super_block \<Rightarrow> apfs_node \<Rightarrow> int \<Rightarrow> int" where
  "slot_val_off sb node i =
     (if n_is_root node then s_blocksize sb - btree_info_size else s_blocksize sb)
       - uint (kvoff_v node i)"

text \<open>
  Modelled from the spec: the key of a record of the object map, the object id and the
  transaction id (section 3), read from \<open>struct apfs_omap_key\<close> (key.h).
\<close>

definition omap_key_size :: int where "omap_key_size = 16"

definition read_omap_key :: "u8 list \<Rightarrow> int \<Rightarrow> apfs_key" where
  "read_omap_key raw off = apfs_init_omap_key (rd_le64 off raw) (rd_le64 (off + ok_xid_in) raw)"

text \<open>
  Modelled from the spec: the node query on a node of the object map, for a query that
  is not multiple (section 4.3). It finds the record with the greatest key that is not
  above the target; as the keys of a node are sorted and the search goes from right to
  left, that is the first slot below the index, from the right, whose key is not above
  the target. Where there is none, an empty root answers not found, and any other node
  signals to go back up. The lengths of key and value are those of the object map; a
  ghost has the length 0. The order of the keys (\<open>apfs_keycmp\<close>, section 4.2) is the
  parameter \<open>le\<close>.
\<close>

fun omap_scan :: "(apfs_key \<Rightarrow> apfs_key \<Rightarrow> bool) \<Rightarrow> apfs_node \<Rightarrow> apfs_key \<Rightarrow> nat \<Rightarrow> nat option" where
  "omap_scan le node target 0 = None"
| "omap_scan le node target (Suc i) =
     (if le (read_omap_key (b_data node) (slot_key_off node (int i))) target then Some i
      else omap_scan le node target i)"

definition omap_node_query ::
  "(apfs_key \<Rightarrow> apfs_key \<Rightarrow> bool) \<Rightarrow> super_block \<Rightarrow> int \<Rightarrow> apfs_query \<Rightarrow> error option \<times> cursor" where
  "omap_node_query le sb val_size q =
     (let node = q_node q;
          stay = \<lparr>c_index = q_index q, c_key_off = q_key_off q, c_key_len = q_key_len q,
                   c_off = q_off q, c_len = q_len q, c_done = False, c_next = False\<rparr>
      in case q_key q of
        None \<Rightarrow> (Some ENODATA, stay)
      | Some target \<Rightarrow>
        (case omap_scan le node target (nat (q_index q)) of
           None \<Rightarrow>
             (Some (if n_is_root node \<and> n_records node = 0 then ENODATA else EAGAIN), stay)
         | Some i \<Rightarrow>
             (None, \<lparr>c_index = int i, c_key_off = slot_key_off node (int i),
                      c_key_len = omap_key_size,
                      c_off = slot_val_off sb node (int i),
                      c_len = (if kvoff_v node (int i) = APFS_BTOFF_INVALID then 0 else val_size),
                      c_done = False, c_next = False\<rparr>)))"

lemma omap_scan_Some:
  "omap_scan le node target n = Some r \<Longrightarrow>
     r < n \<and> le (read_omap_key (b_data node) (slot_key_off node (int r))) target \<and>
     (\<forall>j. r < j \<and> j < n \<longrightarrow> \<not> le (read_omap_key (b_data node) (slot_key_off node (int j))) target)"
proof (induction n)
  case 0
  then show ?case by simp
next
  case (Suc n)
  show ?case
  proof (cases "le (read_omap_key (b_data node) (slot_key_off node (int n))) target")
    case True
    then show ?thesis using Suc.prems by auto
  next
    case False
    then have "omap_scan le node target n = Some r" using Suc.prems by simp
    from Suc.IH [OF this] show ?thesis using False
      by (auto simp: less_Suc_eq)
  qed
qed

lemma omap_scan_finds:
  "r < n \<Longrightarrow> le (read_omap_key (b_data node) (slot_key_off node (int r))) target \<Longrightarrow>
   (\<forall>j. r < j \<and> j < n \<longrightarrow> \<not> le (read_omap_key (b_data node) (slot_key_off node (int j))) target) \<Longrightarrow>
   omap_scan le node target n = Some r"
proof (induction n)
  case 0
  then show ?case by simp
next
  case (Suc n)
  show ?case
  proof (cases "r = n")
    case True
    then show ?thesis using Suc.prems(2) by simp
  next
    case False
    then have "r < n" using Suc.prems(1) by simp
    moreover have "\<not> le (read_omap_key (b_data node) (slot_key_off node (int n))) target"
      using Suc.prems(3) \<open>r < n\<close> by simp
    ultimately show ?thesis using Suc.IH Suc.prems(2,3) by simp
  qed
qed

text \<open>
  The layout of a leaf of the object map (section 3 of the spec): the table of contents
  ends below the keys, every key lies in the area of the keys and every value in the
  area of the values, inside the block, and the keys of two slots do not overlap.
\<close>

definition omap_leaf_ok :: "super_block \<Rightarrow> env \<Rightarrow> apfs_node \<Rightarrow> bool" where
  "omap_leaf_ok sb env node \<longleftrightarrow>
     n_has_fixed_kv_size node \<and> 0 \<le> n_records node \<and>
     node_phys_size + n_records node * kvoff_size \<le> n_key node \<and>
     0 \<le> ov_paddr_in env \<and> ov_paddr_in env + 8 \<le> omap_val_size env \<and>
     list_all (\<lambda>j. n_key node \<le> slot_key_off node (int j) \<and>
                    slot_key_off node (int j) + omap_key_size \<le> n_data node \<and>
                    n_data node \<le> slot_val_off sb node (int j) \<and>
                    slot_val_off sb node (int j) + omap_val_size env \<le> int (length (b_data node)))
       [0..<nat (n_records node)] \<and>
     list_all (\<lambda>i. list_all (\<lambda>j. i = j \<or>
           slot_key_off node (int i) + omap_key_size \<le> slot_key_off node (int j) \<or>
           slot_key_off node (int j) + omap_key_size \<le> slot_key_off node (int i))
         [0..<nat (n_records node)])
       [0..<nat (n_records node)]"

lemma omap_leaf_slots:
  assumes "omap_leaf_ok sb env node" and "j < nat (n_records node)"
  shows "toc_entry_at node (int j) = 56 + 4 * int j"
    "56 + 4 * int j + 4 \<le> n_key node"
    "n_key node \<le> slot_key_off node (int j)"
    "slot_key_off node (int j) + 16 \<le> n_data node"
    "n_data node \<le> slot_val_off sb node (int j)"
    "slot_val_off sb node (int j) + omap_val_size env \<le> int (length (b_data node))"
    "0 \<le> ov_paddr_in env" "ov_paddr_in env + 8 \<le> omap_val_size env"
    "i < nat (n_records node) \<Longrightarrow> i \<noteq> j \<Longrightarrow>
       slot_key_off node (int i) + 16 \<le> slot_key_off node (int j) \<or>
       slot_key_off node (int j) + 16 \<le> slot_key_off node (int i)"
proof -
  note ok = assms(1) [unfolded omap_leaf_ok_def list_all_iff, simplified]
  show "toc_entry_at node (int j) = 56 + 4 * int j"
    using ok by (simp add: toc_entry_at_def toc_entry_size_def layout_defs)
  have "56 + n_records node * 4 \<le> n_key node" using ok by (simp add: layout_defs)
  moreover have "int j + 1 \<le> n_records node" using assms(2) by linarith
  ultimately show "56 + 4 * int j + 4 \<le> n_key node" by linarith
  show "n_key node \<le> slot_key_off node (int j)"
    "slot_key_off node (int j) + 16 \<le> n_data node"
    "n_data node \<le> slot_val_off sb node (int j)"
    "slot_val_off sb node (int j) + omap_val_size env \<le> int (length (b_data node))"
    "0 \<le> ov_paddr_in env" "ov_paddr_in env + 8 \<le> omap_val_size env"
    using ok assms(2) by (simp_all add: omap_key_size_def)
  have d: "\<forall>i\<in>{0..<nat (n_records node)}. \<forall>j\<in>{0..<nat (n_records node)}. i = j \<or>
       slot_key_off node (int i) + 16 \<le> slot_key_off node (int j) \<or>
       slot_key_off node (int j) + 16 \<le> slot_key_off node (int i)"
    using ok by (simp add: omap_key_size_def)
  show "slot_key_off node (int i) + 16 \<le> slot_key_off node (int j) \<or>
       slot_key_off node (int j) + 16 \<le> slot_key_off node (int i)"
    if "i < nat (n_records node)" "i \<noteq> j"
    using bspec [OF bspec [OF d, of i], of j] that assms(2) by simp
qed

text \<open>What the two stores of the lookup for writing leave of the slots and their keys.\<close>

lemma omap_write_frame:
  assumes ok: "omap_leaf_ok sb env tbl" and r: "r < nat (n_records tbl)"
    and raw': "raw' = wr_le64 (slot_val_off sb tbl (int r) + ov_paddr_in env) new_block
                 (wr_le64 (slot_key_off tbl (int r) + ok_xid_in) xid (b_data tbl))"
    and tbl': "tbl' = tbl\<lparr>b_data := raw', b_csum := True, b_dirty := True\<rparr>"
  shows "j < nat (n_records tbl) \<Longrightarrow> slot_key_off tbl' (int j) = slot_key_off tbl (int j)"
    and "j < nat (n_records tbl) \<Longrightarrow> slot_val_off sb tbl' (int j) = slot_val_off sb tbl (int j)"
    and "j < nat (n_records tbl) \<Longrightarrow> kvoff_v tbl' (int j) = kvoff_v tbl (int j)"
    and "j < nat (n_records tbl) \<Longrightarrow> j \<noteq> r \<Longrightarrow>
           read_omap_key raw' (slot_key_off tbl (int j)) =
           read_omap_key (b_data tbl) (slot_key_off tbl (int j))"
    and "read_omap_key raw' (slot_key_off tbl (int r)) =
           apfs_init_omap_key (rd_le64 (slot_key_off tbl (int r)) (b_data tbl)) xid"
    and "rd_le64 (slot_val_off sb tbl (int r) + ov_paddr_in env) raw' = new_block"
    and "untouched [(slot_key_off tbl (int r) + ok_xid_in, slot_key_off tbl (int r) + ok_xid_in + 8),
           (slot_val_off sb tbl (int r) + ov_paddr_in env,
            slot_val_off sb tbl (int r) + ov_paddr_in env + 8)] (b_data tbl) raw'"
proof -
  let ?k = "slot_key_off tbl (int r) + ok_xid_in"
  let ?v = "slot_val_off sb tbl (int r) + ov_paddr_in env"
  let ?raw1 = "wr_le64 ?k xid (b_data tbl)"
  note sr = omap_leaf_slots [OF ok r]
  have u: "untouched [(?k, ?k + 8), (?v, ?v + 8)] (b_data tbl) raw'"
    unfolding raw'
    using untouched_trans [OF untouched_wr(3) [of ?k "b_data tbl" xid]
        untouched_wr(3) [of ?v ?raw1 new_block]] by simp
  show "untouched [(?k, ?k + 8), (?v, ?v + 8)] (b_data tbl) raw'" by (rule u)
  have toc: "rd_le16 (56 + 4 * int j + c) raw' = rd_le16 (56 + 4 * int j + c) (b_data tbl)"
    if "j < nat (n_records tbl)" "c = 0 \<or> c = 2" for j c
    using omap_leaf_slots(2) [OF ok that(1)] sr that(2)
    by (intro untouched_rd(1) [OF u]) (auto simp: ok_xid_in_def)
  have te: "toc_entry_at tbl' i = toc_entry_at tbl i" for i
    by (simp add: tbl' toc_entry_at_def toc_entry_size_def)
  have kv: "kvoff_k tbl' (int j) = kvoff_k tbl (int j)" "kvoff_v tbl' (int j) = kvoff_v tbl (int j)"
    if "j < nat (n_records tbl)" for j
    using toc [OF that, of 0] toc [OF that, of 2] omap_leaf_slots(1) [OF ok that]
    by (simp_all add: kvoff_k_def kvoff_v_def te) (simp_all add: tbl')
  show "j < nat (n_records tbl) \<Longrightarrow> slot_key_off tbl' (int j) = slot_key_off tbl (int j)"
    using kv(1) [of j] by (simp add: slot_key_off_def) (simp add: tbl')
  show "j < nat (n_records tbl) \<Longrightarrow> slot_val_off sb tbl' (int j) = slot_val_off sb tbl (int j)"
    using kv(2) [of j] by (simp add: slot_val_off_def) (simp add: tbl')
  show "j < nat (n_records tbl) \<Longrightarrow> kvoff_v tbl' (int j) = kvoff_v tbl (int j)"
    by (rule kv(2))
  show "read_omap_key raw' (slot_key_off tbl (int j)) =
           read_omap_key (b_data tbl) (slot_key_off tbl (int j))"
    if j: "j < nat (n_records tbl)" "j \<noteq> r"
  proof -
    note sj = omap_leaf_slots [OF ok j(1)]
    have ap: "slot_key_off tbl (int r) + 16 \<le> slot_key_off tbl (int j) \<or>
       slot_key_off tbl (int j) + 16 \<le> slot_key_off tbl (int r)"
      using sj(9) [OF r] j(2) by auto
    have "rd_le64 (slot_key_off tbl (int j)) raw' = rd_le64 (slot_key_off tbl (int j)) (b_data tbl)"
      using sj(2,3,4) sr ap
      by (intro untouched_rd(3) [OF u]) (auto simp: ok_xid_in_def)
    moreover have "rd_le64 (slot_key_off tbl (int j) + ok_xid_in) raw' =
        rd_le64 (slot_key_off tbl (int j) + ok_xid_in) (b_data tbl)"
      using sj(2,3,4) sr ap
      by (intro untouched_rd(3) [OF u]) (auto simp: ok_xid_in_def)
    ultimately show ?thesis by (simp add: read_omap_key_def)
  qed
  have len: "int (length (b_data tbl)) \<ge> ?v + 8" "0 \<le> ?v" "0 \<le> ?k" "?k + 8 \<le> ?v"
    using sr by (simp_all add: ok_xid_in_def)
  show v: "rd_le64 ?v raw' = new_block"
    unfolding raw' using len by (simp add: rd_wr_same)
  have "rd_le64 ?k raw' = rd_le64 ?k ?raw1"
    unfolding raw' using len
    by (intro untouched_rd(3) [OF untouched_wr(3)]) auto
  then have k: "rd_le64 ?k raw' = xid" using len by (simp add: rd_wr_same)
  have "rd_le64 (slot_key_off tbl (int r)) raw' = rd_le64 (slot_key_off tbl (int r)) (b_data tbl)"
    using sr by (intro untouched_rd(3) [OF u]) (auto simp: ok_xid_in_def)
  then show "read_omap_key raw' (slot_key_off tbl (int r)) =
           apfs_init_omap_key (rd_le64 (slot_key_off tbl (int r)) (b_data tbl)) xid"
    using k by (simp add: read_omap_key_def)
qed

lemma omap_node_query_found:
  assumes nq: "node_query env = omap_node_query le sb (omap_val_size env)"
    and found: "apfs_node_query env (omap_query sb tbl oid) = (None, found)"
  obtains r where
    "omap_scan le tbl (apfs_init_omap_key oid (s_xid sb)) (nat (n_records tbl)) = Some r"
    "q_index found = int r" "q_key_off found = slot_key_off tbl (int r)"
    "q_off found = slot_val_off sb tbl (int r)"
    "q_len found = (if kvoff_v tbl (int r) = APFS_BTOFF_INVALID then 0 else omap_val_size env)"
    "q_node found = tbl"
  using found unfolding apfs_node_query_def nq omap_node_query_def
  by (auto simp: omap_query_def apfs_alloc_query_def Let_def split: option.splits if_splits)

lemma omap_node_query_finds:
  assumes nq: "node_query env = omap_node_query le sb (omap_val_size env)"
    and scan: "omap_scan le tbl (apfs_init_omap_key oid (s_xid sb)) (nat (n_records tbl)) = Some r"
  shows "\<exists>found. apfs_node_query env (omap_query sb tbl oid) = (None, found) \<and>
           q_off found = slot_val_off sb tbl (int r) \<and>
           q_len found = (if kvoff_v tbl (int r) = APFS_BTOFF_INVALID then 0 else omap_val_size env) \<and>
           q_node found = tbl"
  using scan unfolding apfs_node_query_def nq omap_node_query_def
  by (simp add: omap_query_def apfs_alloc_query_def Let_def)

subsection \<open>A two-level tree\<close>

text \<open>
  A root that is not a leaf over the empty leaf. The node query of this environment
  goes back up when it is asked for the next record of a multiple query, and otherwise
  finds a record whose value is the first \<open>len\<close> bytes of the block.
\<close>

definition index_node :: apfs_node where
  "index_node = empty_node\<lparr>n_is_leaf := False, n_records := 1, n_block_nr := 2, n_oid := 2\<rparr>"

definition found_at_0 :: "int \<Rightarrow> cursor" where
  "found_at_0 len = \<lparr>c_index = 0, c_key_off = 0, c_key_len = 0, c_off = 0, c_len = len,
     c_done = False, c_next = False\<rparr>"

definition tree_env :: "int \<Rightarrow> env" where
  "tree_env len =
     \<lparr>node_query = (\<lambda>q. if APFS_QUERY_NEXT \<in> q_flags q \<and> APFS_QUERY_MULTIPLE \<in> q_flags q
                         then (Some EAGAIN, found_at_0 len) else (None, found_at_0 len)),
      read_node = (\<lambda>blk. Inr empty_node),
      read_object_block = (\<lambda>blk. Inr 9),
      omap_root = empty_node,
      kmalloc_ok = True,
      ov_paddr_in = 8,
      omap_val_size = 16\<rparr>"

definition index_query :: apfs_query where
  "index_query = empty_query\<lparr>q_node := index_node, q_index := 1,
     q_flags := {APFS_QUERY_OMAP, APFS_QUERY_MULTIPLE}\<rparr>"

subsection \<open>An empty leaf below the root\<close>

text \<open>
  The root \<open>index_node\<close> over a leaf without records that is not a root. The node query
  of this environment is one that the spec allows (section 4.3) in a tree whose keys are
  all below the target: it finds the record to the left of the index, with a value that
  is the first 8 bytes of the block; where there is none, as in an empty node, it
  answers not found at a root and signals to go back up elsewhere.
\<close>

definition empty_child :: apfs_node where
  "empty_child = empty_node\<lparr>n_is_root := False, n_block_nr := 3, n_oid := 0\<rparr>"

definition same_place :: "apfs_query \<Rightarrow> cursor" where
  "same_place q = \<lparr>c_index = q_index q, c_key_off = q_key_off q, c_key_len = q_key_len q,
     c_off = q_off q, c_len = q_len q, c_done = False, c_next = False\<rparr>"

definition left_of :: "apfs_query \<Rightarrow> cursor" where
  "left_of q = \<lparr>c_index = q_index q - 1, c_key_off = 0, c_key_len = 0,
     c_off = 0, c_len = 8, c_done = False, c_next = False\<rparr>"

definition edge_env :: env where
  "edge_env =
     \<lparr>node_query = (\<lambda>q. if q_index q \<le> 0
                         then (Some (if n_is_root (q_node q) then ENODATA else EAGAIN), same_place q)
                         else (None, left_of q)),
      read_node = (\<lambda>blk. Inr empty_child),
      read_object_block = (\<lambda>blk. Inr 9),
      omap_root = empty_node,
      kmalloc_ok = True,
      ov_paddr_in = 8,
      omap_val_size = 16\<rparr>"

definition single_query :: apfs_query where
  "single_query = empty_query\<lparr>q_node := index_node, q_index := 1, q_flags := {APFS_QUERY_OMAP}\<rparr>"

lemma empty_block_child_id: "rd_le64 0 empty_block = 0"
  by (simp add: empty_block_def rd_le64_def get_bytes_def wr_defs put_bytes_def layout_defs)

lemma edge_env_descends:
  "APFS_QUERY_OMAP \<in> fl \<Longrightarrow>
   btree_step edge_env lookup
      (empty_query\<lparr>q_node := index_node, q_index := 1, q_flags := fl\<rparr>) [] [] =
       (if APFS_QUERY_MULTIPLE \<in> fl then
          Descend \<lparr>q_node = empty_child, q_key = None,
                    q_flags = fl - {APFS_QUERY_DONE, APFS_QUERY_NEXT}, q_index = 0,
                    q_key_off = 0, q_key_len = 0, q_off = 0, q_len = 0, q_depth = 1\<rparr>
            [\<lparr>q_node = index_node, q_key = None, q_flags = fl, q_index = 0,
               q_key_off = 0, q_key_len = 0, q_off = 0, q_len = 8, q_depth = 0\<rparr>] []
        else
          Descend \<lparr>q_node = empty_child, q_key = None, q_flags = fl, q_index = 0,
                    q_key_off = 0, q_key_len = 0, q_off = 0, q_len = 8, q_depth = 1\<rparr> [] [])"
  by (simp add: btree_step_def apfs_node_query_def edge_env_def empty_query_def index_node_def
      empty_node_def left_of_def apfs_child_from_query_def in_block_def empty_block_zero
      empty_block_child_id btree_descend_def empty_child_def apfs_alloc_query_def)

subsection \<open>A root of 13 records over empty leaves\<close>

definition many_root :: apfs_node where
  "many_root = index_node\<lparr>n_records := 13\<rparr>"

definition many_query :: "int \<Rightarrow> apfs_query" where
  "many_query i = \<lparr>q_node = many_root, q_key = None,
     q_flags = {APFS_QUERY_OMAP, APFS_QUERY_MULTIPLE}, q_index = i,
     q_key_off = 0, q_key_len = 0, q_off = 0, q_len = 8, q_depth = 0\<rparr>"

definition many_start :: apfs_query where
  "many_start = (apfs_alloc_query many_root None)\<lparr>q_flags := {APFS_QUERY_OMAP, APFS_QUERY_MULTIPLE}\<rparr>"

lemma many_round:
  assumes "0 < i"
  shows "btree_run edge_env lookup (Suc (Suc n)) ((many_query i)\<lparr>q_len := l\<rparr>) [] log =
     map_option (\<lambda>(d, a, r). (Suc d, Suc a, r))
       (btree_run edge_env lookup n (many_query (i - 1)) [] log)"
proof -
  let ?child = "apfs_alloc_query empty_child (Some (many_query (i - 1)))"
  have 1: "btree_step edge_env lookup ((many_query i)\<lparr>q_len := l\<rparr>) [] log =
      Descend ?child [many_query (i - 1)] log"
    using assms
    by (simp add: btree_step_def apfs_node_query_def edge_env_def many_query_def many_root_def
        index_node_def empty_node_def left_of_def apfs_child_from_query_def in_block_def
        empty_block_zero empty_block_child_id btree_descend_def empty_child_def)
  have 2: "btree_step edge_env lookup ?child [many_query (i - 1)] log =
      Ascend (many_query (i - 1)) [] log"
    by (simp add: btree_step_def apfs_node_query_def edge_env_def apfs_alloc_query_def
        many_query_def empty_child_def empty_node_def)
  have A: "btree_run edge_env lookup (Suc (Suc n)) ((many_query i)\<lparr>q_len := l\<rparr>) [] log =
      map_option (\<lambda>(d, a, r). (Suc d, a, r))
        (btree_run edge_env lookup (Suc n) ?child [many_query (i - 1)] log)"
    by (subst btree_run.simps(2)) (simp only: 1 step.case)
  have B: "btree_run edge_env lookup (Suc n) ?child [many_query (i - 1)] log =
      map_option (\<lambda>(d, a, r). (d, Suc a, r))
        (btree_run edge_env lookup n (many_query (i - 1)) [] log)"
    by (subst btree_run.simps(2)) (simp only: 2 step.case)
  show ?thesis unfolding A B
    by (cases "btree_run edge_env lookup n (many_query (i - 1)) [] log") auto
qed

lemma many_end:
  "btree_run edge_env lookup (Suc n) (many_query 0) [] log =
     Some (0, 0, Failure ENODATA (many_query 0, [], log))"
  by (simp add: btree_step_def apfs_node_query_def edge_env_def many_query_def many_root_def
      index_node_def empty_node_def same_place_def)

lemma many_run:
  "btree_run edge_env lookup (Suc (2 * k)) (many_query (int k)) [] log =
     Some (k, k, Failure ENODATA (many_query 0, [], log))"
proof (induction k)
  case 0
  show ?case using many_end [of lookup 0 log] by simp
next
  case (Suc k)
  have e: "Suc (2 * Suc k) = Suc (Suc (Suc (2 * k)))" "int (Suc k) - 1 = int k"
    "many_query (int (Suc k)) = (many_query (int (Suc k)))\<lparr>q_len := 8\<rparr>"
    by (simp_all add: many_query_def)
  have "btree_run edge_env lookup (Suc (Suc (Suc (2 * k)))) ((many_query (int (Suc k)))\<lparr>q_len := 8\<rparr>) [] log =
     map_option (\<lambda>(d, a, r). (Suc d, Suc a, r))
       (btree_run edge_env lookup (Suc (2 * k)) (many_query (int (Suc k) - 1)) [] log)"
    by (rule many_round) simp
  then show ?case unfolding e(1) e(2) Suc.IH e(3) [symmetric] by simp
qed

subsection \<open>An object map with two snapshots of an object\<close>

text \<open>
  Modelled from the spec: the order of the keys of the object map (sections 4.2 and
  4.5), by object id and then by transaction id, so that for an object the record with
  the greatest transaction id that is not above the target is found.
\<close>

definition omap_le :: "apfs_key \<Rightarrow> apfs_key \<Rightarrow> bool" where
  "omap_le k1 k2 \<longleftrightarrow> k_id k1 < k_id k2 \<or> (k_id k1 = k_id k2 \<and> k_number k1 \<le> k_number k2)"

text \<open>
  Scenario S5 of the spec: a root and leaf of the transaction 300 with the records
  \<open>(7, 100)\<close> for the block 20 and \<open>(7, 200)\<close> for the block 21. The keys are at the
  offsets 88 and 104, the values at 4040 and 4024. The checksum of the example is the
  sum of the two addresses, and the header holds it. \<open>apfs_read_object_block\<close> hands
  out the block 100 further on.
\<close>

definition snap_block :: "u8 list" where
  "snap_block =
     wr_le64 o_cksum_at 41 (wr_le64 o_xid_at 300 (wr_le32 btn_nkeys_at 2
       (wr_le16 58 16 (wr_le16 60 16 (wr_le16 62 32
         (wr_le64 88 7 (wr_le64 96 100 (wr_le64 104 7 (wr_le64 112 200
           (wr_le64 4048 20 (wr_le64 4032 21 (replicate 4096 0))))))))))))"

definition snap_sb :: super_block where
  "snap_sb = \<lparr>s_blocksize = 4096, s_xid = 300,
     s_fletcher = (\<lambda>blk. rd_le64 4048 blk + rd_le64 4032 blk)\<rparr>"

definition snap_node :: apfs_node where
  "snap_node = \<lparr>n_is_root = True, n_is_leaf = True, n_has_fixed_kv_size = True,
     n_records = 2, n_key = 88, n_free = 120, n_data = 4024, n_block_nr = 1, n_oid = 1,
     b_data = snap_block, b_dirty = False, b_csum = False\<rparr>"

definition snap_env :: env where
  "snap_env =
     \<lparr>node_query = omap_node_query omap_le snap_sb 16,
      read_node = (\<lambda>blk. Inl EIO),
      read_object_block = (\<lambda>blk. Inr (blk + 100)),
      omap_root = snap_node,
      kmalloc_ok = True,
      ov_paddr_in = 8,
      omap_val_size = 16\<rparr>"

lemma rd_replicate_0:
  "rd_le16 a (replicate n 0) = 0" "rd_le64 a (replicate n 0) = 0"
  by (simp_all add: rd_le16_def rd_le64_def get_bytes_def)

lemma snap_block_reads:
  "length snap_block = 4096"
  "rd_le64 0 snap_block = 41" "rd_le64 16 snap_block = 300"
  "rd_le16 56 snap_block = 0" "rd_le16 58 snap_block = 16"
  "rd_le16 60 snap_block = 16" "rd_le16 62 snap_block = 32"
  "rd_le64 88 snap_block = 7" "rd_le64 96 snap_block = 100"
  "rd_le64 104 snap_block = 7" "rd_le64 112 snap_block = 200"
  "rd_le64 4048 snap_block = 20" "rd_le64 4032 snap_block = 21"
  by (simp_all add: snap_block_def layout_defs wr_le16_def wr_le32_def wr_le64_def rd_put
      rd_le16_put_disjoint rd_le64_put_disjoint rd_replicate_0)

definition snap_found :: apfs_query where
  "snap_found = (omap_query snap_sb snap_node 7)\<lparr>q_index := 1, q_key_off := 104,
     q_key_len := 16, q_off := 4024, q_len := 16\<rparr>"

lemma snap_fields:
  "b_data snap_node = snap_block" "n_records snap_node = 2" "n_is_root snap_node"
  "n_is_leaf snap_node" "n_has_fixed_kv_size snap_node" "n_key snap_node = 88"
  "n_data snap_node = 4024"
  "s_xid snap_sb = 300" "s_blocksize snap_sb = 4096"
  "s_fletcher snap_sb blk = rd_le64 4048 blk + rd_le64 4032 blk"
  "node_query snap_env = omap_node_query omap_le snap_sb 16" "kmalloc_ok snap_env"
  "ov_paddr_in snap_env = 8" "omap_val_size snap_env = 16"
  "read_object_block snap_env b = Inr (b + 100)"
  by (simp_all add: snap_node_def snap_sb_def snap_env_def)

lemma snap_slots:
  "slot_key_off snap_node 0 = 88" "slot_key_off snap_node 1 = 104"
  "slot_val_off snap_sb snap_node 0 = 4040" "slot_val_off snap_sb snap_node 1 = 4024"
  "kvoff_v snap_node 1 = 32"
  by (simp_all add: slot_key_off_def slot_val_off_def kvoff_k_def kvoff_v_def toc_entry_at_def
      toc_entry_size_def snap_fields snap_block_reads layout_defs)

lemma snap_found_fields:
  "q_node snap_found = snap_node" "q_len snap_found = 16" "q_off snap_found = 4024"
  "q_key_off snap_found = 104"
  by (simp_all add: snap_found_def omap_query_def apfs_alloc_query_def)

lemma snap_node_query:
  "apfs_node_query snap_env (omap_query snap_sb snap_node 7) = (None, snap_found)"
proof -
  have k: "read_omap_key (b_data snap_node) (slot_key_off snap_node (int (Suc 0))) =
      apfs_init_omap_key 7 200"
    by (simp add: snap_slots read_omap_key_def ok_xid_in_def snap_fields snap_block_reads)
  have "omap_le (apfs_init_omap_key 7 200) (apfs_init_omap_key 7 300)"
    by (simp add: omap_le_def apfs_init_omap_key_def)
  then have s: "omap_scan omap_le snap_node (apfs_init_omap_key 7 300) (Suc (Suc 0)) = Some (Suc 0)"
    using k by simp
  have q: "q_key (omap_query snap_sb snap_node 7) = Some (apfs_init_omap_key 7 300)"
    "nat (q_index (omap_query snap_sb snap_node 7)) = Suc (Suc 0)"
    "q_node (omap_query snap_sb snap_node 7) = snap_node"
    by (simp_all add: omap_query_def apfs_alloc_query_def snap_fields)
  have "omap_node_query omap_le snap_sb 16 (omap_query snap_sb snap_node 7) =
      (None, \<lparr>c_index = 1, c_key_off = 104, c_key_len = 16, c_off = 4024, c_len = 16,
         c_done = False, c_next = False\<rparr>)"
    unfolding omap_node_query_def Let_def q option.case s
    by (simp add: snap_slots omap_key_size_def APFS_BTOFF_INVALID_def)
  then show ?thesis
    by (simp add: apfs_node_query_def snap_fields snap_found_def)
qed

lemma snap_node_ok: "omap_leaf_ok snap_sb snap_env snap_node"
proof -
  have "[0..<nat (n_records snap_node)] = [0, Suc 0]"
    by (simp add: snap_fields numeral_2_eq_2 upt_rec)
  then show ?thesis
    unfolding omap_leaf_ok_def
    by (simp add: snap_slots snap_fields omap_key_size_def layout_defs snap_block_reads)
qed

section \<open>Properties of the query\<close>






text \<open>
  C2. Every pass of the loop returns, goes up to the parent, the first of the
  ancestors, or goes down to a query of depth one more, which it does only below depth
  12; a pass at depth 12 or more returns \<open>-EFSCORRUPTED\<close>. A query that is not multiple
  and has no ancestors returns within 13 passes, after at most 12 descents and no
  ascent, whatever the node query and the blocks are, its lookups in the object map
  included. A multiple query returns when the node query keeps the contract of the spec
  for the index and the nodes have at most \<open>R\<close> records: the passes of \<open>potential\<close>
  suffice. The bound of 12 descents and as many ascents as the chain is long does not
  hold for it, as a query that has gone back up goes down again from the next slot.
\<close>

theorem btree_query_terminates:
  assumes "13 \<le> fuel" and "0 \<le> q_depth query"
    and "APFS_QUERY_MULTIPLE \<in> q_flags query \<or> parents \<noteq> [] \<Longrightarrow>
           node_query_advances env \<and> records_bounded env R \<and>
           potential R (query # parents) \<le> fuel"
  shows "(\<exists>d a r. btree_run env (omap_translate env sb fuel) fuel query parents log =
             Some (d, a, r) \<and>
           apfs_btree_query env sb fuel query parents log = Some r \<and>
           (APFS_QUERY_MULTIPLE \<notin> q_flags query \<and> parents = [] \<longrightarrow>
              d \<le> 12 \<and> a = 0)) \<and>
         (12 \<le> q_depth query \<longrightarrow>
            btree_step env (omap_translate env sb fuel) query parents log =
              Done (Failure EFSCORRUPTED (query, parents, log @ [Alert_btree_corrupted]))) \<and>
         (case btree_step env (omap_translate env sb fuel) query parents log of
            Done r \<Rightarrow> True
          | Ascend parent ancestors log' \<Rightarrow> parents = parent # ancestors
          | Descend query' parents' log' \<Rightarrow>
              q_depth query < 12 \<and> q_depth query' = q_depth query + 1
          | Stuck \<Rightarrow> False)"
proof -
  let ?lookup = "omap_translate env sb fuel"
  have lk: "\<forall>c l. ?lookup c l \<noteq> None"
    using assms(1) omap_translate_returns [of fuel env sb] by simp
  have run: "\<exists>d a r. btree_run env ?lookup fuel query parents log = Some (d, a, r) \<and>
      (APFS_QUERY_MULTIPLE \<notin> q_flags query \<and> parents = [] \<longrightarrow>
         d \<le> 12 \<and> a = 0)"
  proof (cases "APFS_QUERY_MULTIPLE \<in> q_flags query \<or> parents \<noteq> []")
    case True
    then have h: "node_query_advances env" "records_bounded env R"
      "potential R (query # parents) \<le> fuel"
      using assms(3) by simp_all
    from run_within_potential [OF h(1,2) lk h(3), of log] show ?thesis using True by blast
  next
    case False
    have "\<exists>d r. btree_run env ?lookup fuel query [] log = Some (d, 0, r) \<and> d \<le> 12"
      by (rule single_query_returns) (use False lk assms(1,2) in \<open>simp_all add: lookup_ok_def\<close>)
    then show ?thesis using False by auto
  qed
  then have 1: "\<exists>d a r. btree_run env ?lookup fuel query parents log = Some (d, a, r) \<and>
      apfs_btree_query env sb fuel query parents log = Some r \<and>
      (APFS_QUERY_MULTIPLE \<notin> q_flags query \<and> parents = [] \<longrightarrow>
         d \<le> 12 \<and> a = 0)"
    by (auto simp: apfs_btree_query_def)
  have 2: "12 \<le> q_depth query \<longrightarrow> btree_step env ?lookup query parents log =
      Done (Failure EFSCORRUPTED (query, parents, log @ [Alert_btree_corrupted]))"
    by (simp add: btree_step_def)
  obtain s where s: "btree_step env ?lookup query parents log = s" by simp
  have 3: "case s of Done r \<Rightarrow> True | Ascend parent ancestors log' \<Rightarrow> parents = parent # ancestors
     | Descend query' parents' log' \<Rightarrow> q_depth query < 12 \<and> q_depth query' = q_depth query + 1
     | Stuck \<Rightarrow> False"
    using s
  proof (cases rule: step_cases)
    case stuck
    then show ?thesis using lk by blast
  qed simp_all
  show ?thesis using 1 2 3 s by blast
qed


theorem btree_query_terminates_witness:
  "\<exists>d a r. btree_run edge_env (omap_translate edge_env empty_sb 53249) 53249 many_start [] [] =
       Some (d, a, r) \<and>
     apfs_btree_query edge_env empty_sb 53249 many_start [] [] = Some r"
proof -
  have "weight 0 0 = 2 ^ 12" by (simp add: weight_def numeral_2_eq_2)
  then have w: "weight 0 0 = 4096" by simp
  have p: "potential 0 [many_start] = 53249"
    by (simp add: many_start_def apfs_alloc_query_def many_root_def w)
  have a: "node_query_advances edge_env"
    by (simp add: node_query_advances_def edge_env_def left_of_def)
  have b: "records_bounded edge_env 0"
    by (simp add: records_bounded_def edge_env_def empty_child_def empty_node_def)
  have d: "0 \<le> q_depth many_start" by (simp add: many_start_def apfs_alloc_query_def)
  show ?thesis
    using btree_query_terminates [of 53249 many_start "[]" edge_env 0 empty_sb "[]", OF _ d] a b p
    by fastforce
qed

text \<open>
  More than 12 descents: a multiple query on a root of 13 records over empty leaves, with
  the node query above, goes down 13 times and up 13 times before it returns
  \<open>-ENODATA\<close>, though it has no ancestors when it starts.
\<close>

theorem more_than_twelve_descents:
  "btree_run edge_env (omap_translate edge_env empty_sb 27) 27 many_start [] [] =
     Some (13, 13, Failure ENODATA (many_query 0, [], []))"
proof -
  define lookup where "lookup = omap_translate edge_env empty_sb 27"
  have s: "many_start = (many_query 13)\<lparr>q_len := 0\<rparr>"
    by (simp add: many_start_def many_query_def apfs_alloc_query_def many_root_def)
  have e: "(27 :: nat) = Suc (Suc (Suc (2 * 12)))" "(13 :: int) - 1 = int 12" by simp_all
  have 1: "btree_run edge_env lookup (Suc (Suc (Suc (2 * 12)))) ((many_query 13)\<lparr>q_len := 0\<rparr>) [] [] =
     map_option (\<lambda>(d, a, r). (Suc d, Suc a, r))
       (btree_run edge_env lookup (Suc (2 * 12)) (many_query (13 - 1)) [] [])"
    by (rule many_round) simp
  have "btree_run edge_env lookup (Suc (Suc (Suc (2 * 12)))) ((many_query 13)\<lparr>q_len := 0\<rparr>) [] [] =
     Some (13, 13, Failure ENODATA (many_query 0, [], []))"
    unfolding 1 e(2) many_run by simp
  then have "btree_run edge_env lookup 27 many_start [] [] =
     Some (13, 13, Failure ENODATA (many_query 0, [], []))"
    unfolding s by (subst e(1))
  then show ?thesis by (simp only: lookup_def)
qed

text \<open>
  C8. A lookup for writing in an object map that is a root and a leaf of the
  current transaction and is laid out as the spec has it, where the node query of the
  object map, for an order of the keys that is reflexive, finds a record of the object
  that is not a ghost, and \<open>apfs_read_object_block\<close> hands out a block: the lookup
  returns the number of that block; in the node, \<open>ok_xid\<close> of the record is the current
  transaction and \<open>ov_paddr\<close> is the new block; nothing else in the block has changed,
  the checksum in the header included: the buffer is dirty and flagged for its checksum,
  which this call does not compute. Any later lookup of the same object in the same
  transaction, in the node as it is left, returns the new block.
\<close>

theorem omap_lookup_copy_on_write:
  assumes nq: "node_query env = omap_node_query le sb (omap_val_size env)"
    and kr: "\<forall>k. le k k"
    and mem: "kmalloc_ok env" and root: "n_is_root tbl" and leaf: "n_is_leaf tbl"
    and xin: "in_block o_xid_at 8 (b_data tbl)" and xid: "rd_le64 o_xid_at (b_data tbl) = s_xid sb"
    and ok: "omap_leaf_ok sb env tbl"
    and found: "apfs_node_query env (omap_query sb tbl oid) = (None, found)"
    and len: "q_len found = omap_val_size env"
    and oid: "rd_le64 (q_key_off found) (b_data tbl) = oid"
    and new: "read_object_block env (rd_le64 (q_off found + ov_paddr_in env) (b_data tbl)) =
           Inr new_block"
  shows "\<exists>raw'.
     apfs_omap_lookup_block env sb (Suc n) tbl oid True log =
       Some (Found new_block (tbl\<lparr>b_data := raw', b_csum := True, b_dirty := True\<rparr>) log) \<and>
     rd_le64 (q_key_off found + ok_xid_in) raw' = s_xid sb \<and>
     rd_le64 (q_off found + ov_paddr_in env) raw' = new_block \<and>
     untouched [(q_key_off found + ok_xid_in, q_key_off found + ok_xid_in + 8),
                (q_off found + ov_paddr_in env, q_off found + ov_paddr_in env + 8)]
       (b_data tbl) raw' \<and>
     get_bytes o_cksum_at 8 raw' = get_bytes o_cksum_at 8 (b_data tbl) \<and>
     apfs_omap_lookup_block env sb (Suc m)
         (tbl\<lparr>b_data := raw', b_csum := True, b_dirty := True\<rparr>) oid False log' =
       Some (Found new_block (tbl\<lparr>b_data := raw', b_csum := True, b_dirty := True\<rparr>) log')"
proof -
  let ?K = "apfs_init_omap_key oid (s_xid sb)"
  let ?N = "nat (n_records tbl)"
  from nq found obtain r where
    scan: "omap_scan le tbl ?K ?N = Some r"
    and f: "q_index found = int r" "q_key_off found = slot_key_off tbl (int r)"
      "q_off found = slot_val_off sb tbl (int r)"
      "q_len found = (if kvoff_v tbl (int r) = APFS_BTOFF_INVALID then 0 else omap_val_size env)"
      "q_node found = tbl"
    by (rule omap_node_query_found)
  note S = omap_scan_Some [OF scan]
  have r: "r < ?N" using S by simp
  let ?k = "slot_key_off tbl (int r) + ok_xid_in"
  let ?v = "slot_val_off sb tbl (int r) + ov_paddr_in env"
  let ?raw' = "wr_le64 ?v new_block (wr_le64 ?k (s_xid sb) (b_data tbl))"
  let ?tbl' = "tbl\<lparr>b_data := ?raw', b_csum := True, b_dirty := True\<rparr>"
  note sr = omap_leaf_slots [OF ok r]
  note fr = omap_write_frame [OF ok r refl refl, where new_block = new_block and xid = "s_xid sb"]
  have kin: "in_block ?k 8 (b_data tbl)" "in_block ?v 8 (b_data tbl)"
    using sr by (simp_all add: in_block_def ok_xid_in_def)
  have bno: "apfs_bno_from_query env found = Ok (rd_le64 ?v (b_data tbl))"
    using len kin f by (simp add: apfs_bno_from_query_def)
  have w: "omap_write env sb found (rd_le64 ?v (b_data tbl)) log = Found new_block ?tbl' log"
    using root leaf xin xid kin new f by (simp add: omap_write_def in_block_def)
  have 1: "apfs_omap_lookup_block env sb (Suc n) tbl oid True log = Some (Found new_block ?tbl' log)"
    using omap_lookup_leaf [OF mem leaf found, of n True log] bno w by simp
  have cs: "get_bytes o_cksum_at 8 ?raw' = get_bytes o_cksum_at 8 (b_data tbl)"
    using sr by (intro untouched_get [OF fr(7)]) (auto simp: layout_defs ok_xid_in_def)
  have N': "nat (n_records ?tbl') = ?N" by simp
  have key_r: "le (read_omap_key (b_data ?tbl') (slot_key_off ?tbl' (int r))) ?K"
    using fr(1) [OF r] fr(5) oid f(2) kr by simp
  have key_j: "\<not> le (read_omap_key (b_data ?tbl') (slot_key_off ?tbl' (int j))) ?K"
    if "r < j \<and> j < ?N" for j
    using fr(1) [of j] fr(4) [of j] that S by simp
  have scan': "omap_scan le ?tbl' ?K (nat (n_records ?tbl')) = Some r"
    unfolding N' using r key_r key_j by (intro omap_scan_finds) blast+
  from omap_node_query_finds [OF nq scan'] obtain found' where
    f': "apfs_node_query env (omap_query sb ?tbl' oid) = (None, found')"
      "q_off found' = slot_val_off sb ?tbl' (int r)"
      "q_len found' = (if kvoff_v ?tbl' (int r) = APFS_BTOFF_INVALID then 0 else omap_val_size env)"
      "q_node found' = ?tbl'"
    by blast
  have "apfs_bno_from_query env found' = Ok new_block"
    using f'(2-4) fr(2) [OF r] fr(3) [OF r] fr(6) f(4) len kin(2)
    by (simp add: apfs_bno_from_query_def in_block_def)
  then have 2: "apfs_omap_lookup_block env sb (Suc m) ?tbl' oid False log' =
      Some (Found new_block ?tbl' log')"
    using omap_lookup_leaf [OF mem _ f'(1), of m False log'] leaf by simp
  have k: "rd_le64 ?k ?raw' = s_xid sb"
    using fr(5) by (simp add: read_omap_key_def apfs_init_omap_key_def)
  show ?thesis
    unfolding f(2,3)
    by (rule exI [of _ ?raw']) (use 1 2 k fr(6) fr(7) cs in blast)
qed

theorem omap_lookup_copy_on_write_witness:
  "\<exists>raw'.
     apfs_omap_lookup_block snap_env snap_sb 1 snap_node 7 True [] =
       Some (Found 121 (snap_node\<lparr>b_data := raw', b_csum := True, b_dirty := True\<rparr>) []) \<and>
     rd_le64 112 raw' = 300 \<and> rd_le64 4032 raw' = 121 \<and>
     apfs_omap_lookup_block snap_env snap_sb 1
         (snap_node\<lparr>b_data := raw', b_csum := True, b_dirty := True\<rparr>) 7 False [] =
       Some (Found 121 (snap_node\<lparr>b_data := raw', b_csum := True, b_dirty := True\<rparr>) [])"
proof -
  have h: "node_query snap_env = omap_node_query omap_le snap_sb (omap_val_size snap_env)"
    "\<forall>k. omap_le k k" "kmalloc_ok snap_env" "n_is_root snap_node" "n_is_leaf snap_node"
    "in_block o_xid_at 8 (b_data snap_node)" "rd_le64 o_xid_at (b_data snap_node) = s_xid snap_sb"
    by (simp_all add: snap_fields omap_le_def in_block_def snap_block_reads layout_defs)
  have g: "q_len snap_found = omap_val_size snap_env"
    "rd_le64 (q_key_off snap_found) (b_data snap_node) = 7"
    "read_object_block snap_env (rd_le64 (q_off snap_found + ov_paddr_in snap_env) (b_data snap_node)) =
       Inr 121"
    by (simp_all add: snap_found_fields snap_fields snap_block_reads)
  have e: "q_key_off snap_found + ok_xid_in = 112" "q_off snap_found + ov_paddr_in snap_env = 4032"
    "s_xid snap_sb = 300" "(1 :: nat) = Suc 0"
    by (simp_all add: snap_found_fields snap_fields ok_xid_in_def)
  from omap_lookup_copy_on_write [OF h snap_node_ok snap_node_query g, of 0 "[]" 0 "[]"]
  obtain raw' where
    "apfs_omap_lookup_block snap_env snap_sb (Suc 0) snap_node 7 True [] =
       Some (Found 121 (snap_node\<lparr>b_data := raw', b_csum := True, b_dirty := True\<rparr>) [])"
    "rd_le64 (q_key_off snap_found + ok_xid_in) raw' = s_xid snap_sb"
    "rd_le64 (q_off snap_found + ov_paddr_in snap_env) raw' = 121"
    "apfs_omap_lookup_block snap_env snap_sb (Suc 0)
         (snap_node\<lparr>b_data := raw', b_csum := True, b_dirty := True\<rparr>) 7 False [] =
       Some (Found 121 (snap_node\<lparr>b_data := raw', b_csum := True, b_dirty := True\<rparr>) [])"
    by blast
  then show ?thesis unfolding e by blast
qed

text \<open>
  The checksum is not recomputed: after the lookup for writing of scenario S5 the header
  still holds 41, the checksum of the block as it was, and not 141, the checksum of the
  block as it is; the buffer has the flag \<open>b_csum\<close>.
\<close>

theorem omap_lookup_leaves_checksum:
  "apfs_omap_lookup_block snap_env snap_sb 1 snap_node 7 True [] =
     Some (Found 121
       (snap_node\<lparr>b_data := wr_le64 4032 121 (wr_le64 112 300 snap_block),
          b_csum := True, b_dirty := True\<rparr>) []) \<and>
   s_fletcher snap_sb snap_block = 41 \<and>
   rd_le64 o_cksum_at snap_block = 41 \<and>
   s_fletcher snap_sb (wr_le64 4032 121 (wr_le64 112 300 snap_block)) = 141 \<and>
   rd_le64 o_cksum_at (wr_le64 4032 121 (wr_le64 112 300 snap_block)) = 41"
proof -
  let ?raw' = "wr_le64 4032 121 (wr_le64 112 300 snap_block)"
  have bno: "apfs_bno_from_query snap_env snap_found = Ok 21"
    by (simp add: apfs_bno_from_query_def snap_found_fields snap_fields in_block_def
        snap_block_reads)
  have w: "omap_write snap_env snap_sb snap_found 21 [] =
      Found 121 (snap_node\<lparr>b_data := ?raw', b_csum := True, b_dirty := True\<rparr>) []"
    by (simp add: omap_write_def snap_found_fields snap_fields in_block_def ok_xid_in_def
        layout_defs snap_block_reads)
  have 1: "apfs_omap_lookup_block snap_env snap_sb (Suc 0) snap_node 7 True [] =
      Some (Found 121 (snap_node\<lparr>b_data := ?raw', b_csum := True, b_dirty := True\<rparr>) [])"
    using omap_lookup_leaf [OF snap_fields(12) snap_fields(4) snap_node_query, of 0 True "[]"] bno w
    by simp
  have r: "rd_le64 4048 ?raw' = 20" "rd_le64 4032 ?raw' = 121" "rd_le64 0 ?raw' = 41"
    by (simp_all add: wr_le64_def rd_put rd_le64_put_disjoint snap_block_reads)
  have e: "(1 :: nat) = Suc 0" by simp
  show ?thesis
    unfolding e 1 by (simp add: snap_fields snap_block_reads r layout_defs)
qed

end
